theory Spec2Isabelle
  imports Complex_Main
begin

section \<open>The font-run resolver: delimiter segments\<close>

text \<open>
  \<^verbatim>\<open>getDelimiterPos(str, delimiter, startIdx = 0, endIdx = str.length)\<close> of
  \<^verbatim>\<open>src/cursor_mcp_plugin/code.js\<close>.  The \<^verbatim>\<open>for\<close> loop is the recursive function
  below: \<open>i\<close> is the loop counter, \<open>temp\<close> the start of the pending segment and \<open>indices\<close>
  the array of pairs pushed so far.  Reading \<^verbatim>\<open>str[i]\<close> past the end of a JavaScript string
  gives \<^verbatim>\<open>undefined\<close>, which is never equal to the delimiter; the test \<open>i < length str\<close>
  writes this out.  The closing \<^verbatim>\<open>filter(Boolean)\<close> keeps every pair, an array being truthy.
\<close>

function getDelimiterPos_loop ::
  "string \<Rightarrow> char \<Rightarrow> nat \<Rightarrow> nat \<Rightarrow> nat \<Rightarrow> nat \<Rightarrow> (nat \<times> nat) list \<Rightarrow> (nat \<times> nat) list \<times> nat"
where
  "getDelimiterPos_loop str delimiter startIdx endIdx i temp indices =
     (if i < endIdx then
        (if (i < length str \<and> str ! i = delimiter) \<and> i + startIdx \<noteq> endIdx \<and> temp \<noteq> i + startIdx
         then getDelimiterPos_loop str delimiter startIdx endIdx (i + 1) (i + startIdx + 1)
                (indices @ [(temp, i + startIdx)])
         else getDelimiterPos_loop str delimiter startIdx endIdx (i + 1) temp indices)
      else (indices, temp))"
  by pat_completeness auto
termination
  by (relation "measure (\<lambda>(str, delimiter, startIdx, endIdx, i, temp, indices). endIdx - i)") auto

definition getDelimiterPos :: "string \<Rightarrow> char \<Rightarrow> nat \<Rightarrow> nat \<Rightarrow> (nat \<times> nat) list" where
  "getDelimiterPos str delimiter startIdx endIdx =
     (case getDelimiterPos_loop str delimiter startIdx endIdx startIdx startIdx [] of
        (indices, temp) \<Rightarrow> if temp \<noteq> endIdx then indices @ [(temp, endIdx)] else indices)"

text \<open>
  The segments as the specification words them: scan from the current offset, close the
  pending segment \<open>[pendingStart, delimiterIndex]\<close> at a delimiter that is not at the end of
  the range when the pending segment is non-empty, start the next one right after the
  delimiter, and append a last non-empty pending segment that reaches the end.
\<close>

function delimiter_segments_spec ::
  "string \<Rightarrow> char \<Rightarrow> nat \<Rightarrow> nat \<Rightarrow> nat \<Rightarrow> (nat \<times> nat) list"
where
  "delimiter_segments_spec str delimiter endIdx i pendingStart =
     (if i < endIdx then
        (if (i < length str \<and> str ! i = delimiter) \<and> i \<noteq> endIdx \<and> pendingStart \<noteq> i
         then (pendingStart, i) # delimiter_segments_spec str delimiter endIdx (i + 1) (i + 1)
         else delimiter_segments_spec str delimiter endIdx (i + 1) pendingStart)
      else (if pendingStart \<noteq> endIdx then [(pendingStart, endIdx)] else []))"
  by pat_completeness auto
termination
  by (relation "measure (\<lambda>(str, delimiter, endIdx, i, pendingStart). endIdx - i)") auto

definition getDelimiterPos_spec :: "string \<Rightarrow> char \<Rightarrow> nat \<Rightarrow> nat \<Rightarrow> (nat \<times> nat) list" where
  "getDelimiterPos_spec str delimiter startIdx endIdx =
     delimiter_segments_spec str delimiter endIdx startIdx startIdx"

definition newline :: char where
  "newline = CHR 0x0A"

section \<open>The font-run resolver: text nodes and the smart strategy\<close>

text \<open>
  A font is the pair \<^verbatim>\<open>{family, style}\<close>.  A text node is modelled by what the resolver
  reads and writes of it: its characters and the font of each character.  A recorded run
  is an entry of the list \<^verbatim>\<open>buildLinearOrder\<close> returns, \<^verbatim>\<open>{family, style, delimiter}\<close>;
  the delimiter is the one-character string \<^verbatim>\<open>"\n"\<close> or \<^verbatim>\<open>" "\<close>.
\<close>

record FontName =
  family :: string
  style :: string

record TextNode =
  characters :: string
  charFonts :: "FontName list"

record FontRun =
  run_family :: string
  run_style :: string
  run_delimiter :: char

datatype host_error = RangeError | FontLoadError | TypeError

text \<open>
  The host primitives.  \<^verbatim>\<open>setRangeFontName(start, end, font)\<close> writes the font of the
  characters in \<open>[start, end)\<close>; the host throws on a range that is empty or leaves the
  text.  Assigning \<^verbatim>\<open>node.fontName\<close> sets the font of every character, and assigning
  \<^verbatim>\<open>node.characters\<close> on a node of one font gives a text of that font.
\<close>

definition setRangeFontName :: "TextNode \<Rightarrow> nat \<Rightarrow> nat \<Rightarrow> FontName \<Rightarrow> host_error + TextNode" where
  "setRangeFontName node start end' font =
     (if start < end' \<and> end' \<le> length (characters node)
      then Inr (node\<lparr>charFonts :=
             take start (charFonts node) @ replicate (end' - start) font @ drop end' (charFonts node)\<rparr>)
      else Inl RangeError)"

definition set_fontName :: "TextNode \<Rightarrow> FontName \<Rightarrow> TextNode" where
  "set_fontName node font = node\<lparr>charFonts := replicate (length (characters node)) font\<rparr>"

definition set_characters :: "TextNode \<Rightarrow> string \<Rightarrow> FontName \<Rightarrow> TextNode" where
  "set_characters node text font = \<lparr>characters = text, charFonts = replicate (length text) font\<rparr>"

text \<open>
  \<^verbatim>\<open>String.prototype.indexOf(searchString, position)\<close> for a one-character search string:
  the first index at or after \<open>position\<close> that holds the character, \<open>-1\<close> when there is none.
\<close>

definition indexOf :: "string \<Rightarrow> char \<Rightarrow> nat \<Rightarrow> int" where
  "indexOf s c position =
     (case find (\<lambda>i. s ! i = c) [position ..< length s] of None \<Rightarrow> - 1 | Some i \<Rightarrow> int i)"

text \<open>
  \<^verbatim>\<open>uniqBy(arr, predicate)\<close>: the first item of every key, in the order of first
  occurrence (a \<^verbatim>\<open>Map\<close> filled with \<^verbatim>\<open>map.has(key) || map.set(key, item)\<close>).
\<close>

fun uniqBy_loop :: "('a \<Rightarrow> 'k) \<Rightarrow> 'a list \<Rightarrow> 'k list \<Rightarrow> 'a list" where
  "uniqBy_loop cb [] seen = []"
| "uniqBy_loop cb (item # arr) seen =
     (if cb item \<in> set seen then uniqBy_loop cb arr seen
      else item # uniqBy_loop cb arr (seen @ [cb item]))"

definition uniqBy :: "'a list \<Rightarrow> ('a \<Rightarrow> 'k) \<Rightarrow> 'a list" where
  "uniqBy arr cb = uniqBy_loop cb arr []"

definition font_key :: "string \<Rightarrow> string \<Rightarrow> string" where
  "font_key fam sty = fam @ ''::'' @ sty"

text \<open>
  The re-application loop of \<^verbatim>\<open>setCharactersWithSmartMatchFont\<close>
  (\<^verbatim>\<open>rangeTree.forEach\<close>): \<open>prevPos\<close> is the cursor, and \<open>calls\<close> records the
  \<^verbatim>\<open>setRangeFontName\<close> calls made so far, in order.  A call the host rejects throws
  out of the loop.
\<close>

fun applyRangeTree ::
  "FontRun list \<Rightarrow> nat \<Rightarrow> TextNode \<Rightarrow> (nat \<times> nat \<times> FontName) list
     \<Rightarrow> host_error + (nat \<times> TextNode \<times> (nat \<times> nat \<times> FontName) list)"
where
  "applyRangeTree [] prevPos node calls = Inr (prevPos, node, calls)"
| "applyRangeTree (r # rangeTree) prevPos node calls =
     (if prevPos < length (characters node) then
        (let delimeterPos = indexOf (characters node) (run_delimiter r) prevPos;
             endPos = (if delimeterPos > int prevPos then nat delimeterPos
                       else length (characters node));
             matchedFont = \<lparr>family = run_family r, style = run_style r\<rparr>
         in case setRangeFontName node prevPos endPos matchedFont of
              Inl e \<Rightarrow> Inl e
            | Inr node' \<Rightarrow>
                applyRangeTree rangeTree (endPos + 1) node' (calls @ [(prevPos, endPos, matchedFont)]))
      else applyRangeTree rangeTree prevPos node calls)"

text \<open>
  \<^verbatim>\<open>setCharactersWithSmartMatchFont(node, characters, fallbackFont)\<close>, from the list
  \<open>rangeTree\<close> that \<^verbatim>\<open>buildLinearOrder(node)\<close> has returned.  \<open>loadFontAsync\<close> says which
  fonts the host can load; a font it cannot load rejects the \<^verbatim>\<open>Promise.all\<close>.  The
  result is the value returned (\<^verbatim>\<open>true\<close>), the node and the range calls made.
\<close>

definition setCharactersWithSmartMatchFont ::
  "(FontName \<Rightarrow> bool) \<Rightarrow> FontRun list \<Rightarrow> TextNode \<Rightarrow> string \<Rightarrow> FontName
     \<Rightarrow> host_error + (bool \<times> TextNode \<times> (nat \<times> nat \<times> FontName) list)"
where
  "setCharactersWithSmartMatchFont loadFontAsync rangeTree node chars fallbackFont =
     (let fontsToLoad =
            map (\<lambda>r. \<lparr>family = run_family r, style = run_style r\<rparr>)
              (uniqBy rangeTree (\<lambda>r. font_key (run_family r) (run_style r)))
      in if \<not> list_all loadFontAsync (fontsToLoad @ [fallbackFont]) then Inl FontLoadError
         else
           (let node1 = set_fontName node fallbackFont;
                node2 = set_characters node1 chars fallbackFont
            in case applyRangeTree rangeTree 0 node2 [] of
                 Inl e \<Rightarrow> Inl e
               | Inr (prevPos, node3, calls) \<Rightarrow> Inr (True, node3, calls)))"

text \<open>
  The walk as the specification words it: for every run, the end of its range is the index
  of the next occurrence of the run's delimiter at or after the cursor, or the length of
  the text when there is none; the range is \<open>[prevPos, end)\<close> and the cursor moves to
  \<open>end + 1\<close>.
\<close>

fun smart_ranges_spec :: "FontRun list \<Rightarrow> nat \<Rightarrow> string \<Rightarrow> (nat \<times> nat \<times> FontName) list" where
  "smart_ranges_spec [] prevPos text = []"
| "smart_ranges_spec (r # runs) prevPos text =
     (let end' = (case find (\<lambda>i. text ! i = run_delimiter r) [prevPos ..< length text] of
                    None \<Rightarrow> length text | Some i \<Rightarrow> i)
      in (prevPos, end', \<lparr>family = run_family r, style = run_style r\<rparr>)
           # smart_ranges_spec runs (end' + 1) text)"

text \<open>The value the loop binds to \<^verbatim>\<open>endPos\<close> for a cursor and a delimiter.\<close>

definition smart_endPos :: "string \<Rightarrow> char \<Rightarrow> nat \<Rightarrow> nat" where
  "smart_endPos s d prevPos =
     (if indexOf s d prevPos > int prevPos then nat (indexOf s d prevPos) else length s)"

section \<open>The font-run resolver: the prevail strategy\<close>

text \<open>
  The branch of \<^verbatim>\<open>setCharacters\<close> taken for a node of mixed fonts
  (\<^verbatim>\<open>node.fontName === figma.mixed\<close>) under \<^verbatim>\<open>smartStrategy === "prevail"\<close>.
  \<^verbatim>\<open>fontHashTree\<close> is a JavaScript object with string keys: its entries keep the order in
  which the keys were first written, so it is an association list here.
  \<^verbatim>\<open>getRangeFontName(i - 1, i)\<close> reads the font of one character; the host throws on a
  range outside the text.
\<close>

definition node_is_mixed :: "TextNode \<Rightarrow> bool" where
  "node_is_mixed node =
     (case charFonts node of [] \<Rightarrow> False | f # fonts \<Rightarrow> \<not> list_all (\<lambda>g. g = f) fonts)"

definition getCharFontName :: "TextNode \<Rightarrow> nat \<Rightarrow> host_error + FontName" where
  "getCharFontName node i =
     (if i < length (characters node) \<and> i < length (charFonts node)
      then Inr (charFonts node ! i) else Inl RangeError)"

fun tally :: "(string \<times> nat) list \<Rightarrow> string \<Rightarrow> (string \<times> nat) list" where
  "tally [] key = [(key, 1)]"
| "tally ((k, n) # tree) key = (if k = key then (k, n + 1) # tree else (k, n) # tally tree key)"

function prevail_loop :: "TextNode \<Rightarrow> nat \<Rightarrow> (string \<times> nat) list \<Rightarrow> host_error + (string \<times> nat) list" where
  "prevail_loop node i fontHashTree =
     (if i < length (characters node) then
        (case getCharFontName node (i - 1) of
           Inl e \<Rightarrow> Inl e
         | Inr charFont \<Rightarrow>
             prevail_loop node (i + 1)
               (tally fontHashTree (font_key (family charFont) (style charFont))))
      else Inr fontHashTree)"
  by pat_completeness auto
termination
  by (relation "measure (\<lambda>(node, i, fontHashTree). length (characters node) - i)") auto

text \<open>
  \<^verbatim>\<open>Object.entries(fontHashTree).sort((a, b) => b[1] - a[1])\<close>: a stable sort by
  descending count (\<open>sort_key\<close> is an insertion sort, which is stable).
\<close>

definition sort_by_count_desc :: "(string \<times> nat) list \<Rightarrow> (string \<times> nat) list" where
  "sort_by_count_desc entries = sort_key (\<lambda>e. - int (snd e)) entries"

text \<open>\<^verbatim>\<open>key.split("::")\<close>, scanning left to right; \<open>cur\<close> is the part being read.\<close>

fun split_dcolon :: "string \<Rightarrow> string \<Rightarrow> string list" where
  "split_dcolon cur (a # b # rest) =
     (if a = CHR '':'' \<and> b = CHR '':'' then cur # split_dcolon [] rest
      else split_dcolon (cur @ [a]) (b # rest))"
| "split_dcolon cur [a] = [cur @ [a]]"
| "split_dcolon cur [] = [cur]"

text \<open>
  The font the branch chooses.  With no entry, \<^verbatim>\<open>prevailedTreeItem[0]\<close> reads a property
  of \<^verbatim>\<open>undefined\<close> and throws; a font that does not load rejects.
\<close>

definition prevailedFont :: "(FontName \<Rightarrow> bool) \<Rightarrow> TextNode \<Rightarrow> host_error + FontName" where
  "prevailedFont loadFontAsync node =
     (case prevail_loop node 1 [] of
        Inl e \<Rightarrow> Inl e
      | Inr fontHashTree \<Rightarrow>
          (case sort_by_count_desc fontHashTree of
             [] \<Rightarrow> Inl TypeError
           | prevailedTreeItem # _ \<Rightarrow>
               (case split_dcolon [] (fst prevailedTreeItem) of
                  fam # sty # _ \<Rightarrow>
                    if loadFontAsync \<lparr>family = fam, style = sty\<rparr>
                    then Inr \<lparr>family = fam, style = sty\<rparr> else Inl FontLoadError
                | _ \<Rightarrow> Inl FontLoadError)))"

text \<open>
  The whole branch: an exception of the first \<^verbatim>\<open>try\<close> block is caught and the fallback
  font is loaded and assigned instead; then the characters are set and \<^verbatim>\<open>true\<close> is
  returned.  A fallback font that does not load rejects the call.
\<close>

definition setCharacters_prevail ::
  "(FontName \<Rightarrow> bool) \<Rightarrow> TextNode \<Rightarrow> string \<Rightarrow> FontName \<Rightarrow> host_error + (bool \<times> TextNode)"
where
  "setCharacters_prevail loadFontAsync node chars fallbackFont =
     (case prevailedFont loadFontAsync node of
        Inr font \<Rightarrow> Inr (True, set_characters (set_fontName node font) chars font)
      | Inl e \<Rightarrow>
          if loadFontAsync fallbackFont
          then Inr (True, set_characters (set_fontName node fallbackFont) chars fallbackFont)
          else Inl FontLoadError)"

text \<open>
  The tally as the specification words it: one occurrence for every character of the text.
\<close>

definition prevail_tally_spec :: "TextNode \<Rightarrow> (string \<times> nat) list" where
  "prevail_tally_spec node =
     fold (\<lambda>f tree. tally tree (font_key (family f) (style f))) (charFonts node) []"

definition prevailedFont_spec :: "TextNode \<Rightarrow> FontName option" where
  "prevailedFont_spec node =
     (case sort_by_count_desc (prevail_tally_spec node) of
        [] \<Rightarrow> None
      | item # _ \<Rightarrow>
          (case split_dcolon [] (fst item) of
             fam # sty # _ \<Rightarrow> Some \<lparr>family = fam, style = sty\<rparr> | _ \<Rightarrow> None))"

section \<open>The tree collector\<close>

text \<open>
  A node of the document tree, with the properties the collectors read: its id, name and
  type, the \<^verbatim>\<open>visible\<close> flag (\<open>None\<close> for a node that has no such property, a page for
  instance), the characters of a text node and the children.  A node without a
  \<^verbatim>\<open>children\<close> property is a node with no children: the collectors loop over the
  children only under \<^verbatim>\<open>"children" in node\<close>.
\<close>

datatype SceneNode = SceneNode
  (node_id: string) (node_name: string) (node_type: string) (visible: "bool option")
  (node_characters: string) (children: "SceneNode list")

record NodeInfo =
  info_node :: SceneNode
  info_parentPath :: "string list"
  info_depth :: nat

definition name_or_unnamed :: "SceneNode \<Rightarrow> string" where
  "name_or_unnamed node =
     (if node_name node = [] then ''Unnamed '' @ node_type node else node_name node)"

text \<open>
  \<^verbatim>\<open>collectNodesToProcess(node, parentPath, depth, nodesToProcess)\<close>: the array
  \<^verbatim>\<open>nodesToProcess\<close> is filled in place, so it is passed in and returned.
\<close>

fun collectNodesToProcess ::
  "SceneNode \<Rightarrow> string list \<Rightarrow> nat \<Rightarrow> NodeInfo list \<Rightarrow> NodeInfo list"
where
  "collectNodesToProcess (SceneNode i n t v c cs) parentPath depth nodesToProcess =
     (if v = Some False then nodesToProcess
      else
        (let nodePath = parentPath @ [name_or_unnamed (SceneNode i n t v c cs)];
             pushed = nodesToProcess
               @ [\<lparr>info_node = SceneNode i n t v c cs, info_parentPath = nodePath, info_depth = depth\<rparr>]
         in fold (\<lambda>child acc. collectNodesToProcess child nodePath (depth + 1) acc) cs pushed))"

text \<open>
  \<^verbatim>\<open>findTextNodes(node, parentPath, depth, textNodes)\<close>.  The entry pushed for a text node
  is its \<^verbatim>\<open>safeTextNode\<close>; the font and geometry fields, copied from the node, are left
  out.  The node properties are data of the tree here, so the \<^verbatim>\<open>catch\<close> blocks, which
  only log, are never entered.
\<close>

record TextNodeInfo =
  text_id :: string
  text_name :: string
  text_type :: string
  text_characters :: string
  text_path :: string
  text_depth :: nat

fun join :: "string \<Rightarrow> string list \<Rightarrow> string" where
  "join sep [] = []"
| "join sep [x] = x"
| "join sep (x # y # xs) = x @ sep @ join sep (y # xs)"

definition safeTextNode :: "SceneNode \<Rightarrow> string list \<Rightarrow> nat \<Rightarrow> TextNodeInfo" where
  "safeTextNode node nodePath depth =
     \<lparr>text_id = node_id node,
      text_name = (if node_name node = [] then ''Text'' else node_name node),
      text_type = node_type node,
      text_characters = node_characters node,
      text_path = join '' > '' nodePath,
      text_depth = depth\<rparr>"

fun findTextNodes ::
  "SceneNode \<Rightarrow> string list \<Rightarrow> nat \<Rightarrow> TextNodeInfo list \<Rightarrow> TextNodeInfo list"
where
  "findTextNodes (SceneNode i n t v c cs) parentPath depth textNodes =
     (if v = Some False then textNodes
      else
        (let nodePath = parentPath @ [name_or_unnamed (SceneNode i n t v c cs)];
             pushed = (if t = ''TEXT''
                       then textNodes @ [safeTextNode (SceneNode i n t v c cs) nodePath depth]
                       else textNodes)
         in fold (\<lambda>child acc. findTextNodes child nodePath (depth + 1) acc) cs pushed))"

text \<open>
  \<^verbatim>\<open>findNodesByTypes(node, types, matchingNodes)\<close>; the bounding box of an entry is
  left out.
\<close>

record MatchInfo =
  match_id :: string
  match_name :: string
  match_type :: string

fun findNodesByTypes :: "SceneNode \<Rightarrow> string list \<Rightarrow> MatchInfo list \<Rightarrow> MatchInfo list" where
  "findNodesByTypes (SceneNode i n t v c cs) types matchingNodes =
     (if v = Some False then matchingNodes
      else
        (let pushed = (if t \<in> set types
                       then matchingNodes
                         @ [\<lparr>match_id = i, match_name = name_or_unnamed (SceneNode i n t v c cs),
                             match_type = t\<rparr>]
                       else matchingNodes)
         in fold (\<lambda>child acc. findNodesByTypes child types acc) cs pushed))"

text \<open>
  Every node of a tree in depth-first pre-order, whatever its flags, and the nodes that lie in
  the subtree of a node whose flag is \<^verbatim>\<open>false\<close> (that node included).
\<close>

fun subnodes :: "SceneNode \<Rightarrow> SceneNode list" where
  "subnodes (SceneNode i n t v c cs) = SceneNode i n t v c cs # concat (map subnodes cs)"

definition in_invisible_subtree :: "SceneNode \<Rightarrow> SceneNode \<Rightarrow> bool" where
  "in_invisible_subtree start m =
     list_ex (\<lambda>n. visible n = Some False \<and> m \<in> set (subnodes n)) (subnodes start)"

text \<open>
  The nodes reached by a walk that stops at every node whose flag is \<^verbatim>\<open>false\<close>, in
  pre-order.
\<close>

fun visible_preorder :: "SceneNode \<Rightarrow> SceneNode list" where
  "visible_preorder (SceneNode i n t v c cs) =
     (if v = Some False then [] else SceneNode i n t v c cs # concat (map visible_preorder cs))"

section \<open>Progress events\<close>

text \<open>
  A progress event as \<^verbatim>\<open>sendProgressUpdate\<close> builds and posts it.  The message text, the
  timestamp and the payload are not modelled, except for the two payload fields the function
  reads: \<^verbatim>\<open>currentChunk\<close> and \<^verbatim>\<open>totalChunks\<close> are copied to the event when the payload
  defines both.  The events a command posts are collected in a list, in order.
\<close>

datatype status = Started | InProgress | Completed | Error

record ProgressUpdate =
  commandId :: string
  commandType :: string
  status :: status
  progress :: nat
  totalItems :: nat
  processedItems :: nat
  currentChunk :: "nat option"
  totalChunks :: "nat option"

definition sendProgressUpdate ::
  "string \<Rightarrow> string \<Rightarrow> status \<Rightarrow> nat \<Rightarrow> nat \<Rightarrow> nat \<Rightarrow> (nat option \<times> nat option) option
     \<Rightarrow> ProgressUpdate"
where
  "sendProgressUpdate cmdId cmdType st prog itemCount processed payload =
     (let update = \<lparr>commandId = cmdId, commandType = cmdType, status = st, progress = prog,
                     totalItems = itemCount, processedItems = processed,
                     currentChunk = None, totalChunks = None\<rparr>
      in case payload of
           None \<Rightarrow> update
         | Some (cur, tot) \<Rightarrow>
             if cur \<noteq> None \<and> tot \<noteq> None
             then update\<lparr>currentChunk := cur, totalChunks := tot\<rparr> else update)"

text \<open>
  \<^verbatim>\<open>Math.round(5 + (chunksDone / totalChunks) * 90)\<close> and \<^verbatim>\<open>Math.ceil\<close>.  JavaScript
  computes in double precision; the model computes in the rationals, where
  \<^verbatim>\<open>Math.round\<close> is \<open>\<lfloor>x + 1/2\<rfloor>\<close>.
\<close>

definition Math_round :: "rat \<Rightarrow> int" where
  "Math_round x = \<lfloor>x + 1 / 2\<rfloor>"

definition Math_ceil :: "rat \<Rightarrow> int" where
  "Math_ceil x = \<lceil>x\<rceil>"

definition chunk_progress :: "nat \<Rightarrow> nat \<Rightarrow> nat" where
  "chunk_progress chunksDone chunkCount =
     nat (Math_round (5 + (of_nat chunksDone / of_nat chunkCount) * 90))"

section \<open>The chunked batch commands\<close>

text \<open>
  The document host: \<^verbatim>\<open>figma.getNodeByIdAsync\<close>, \<^verbatim>\<open>node.remove()\<close> and the writing of a
  text node's characters (font loading and \<^verbatim>\<open>setCharacters\<close>), over a document state
  \<open>'d\<close>.  \<open>Inl msg\<close> is an exception with that message.
\<close>

record 'd host =
  getNodeByIdAsync :: "'d \<Rightarrow> string \<Rightarrow> string + SceneNode option"
  remove :: "'d \<Rightarrow> SceneNode \<Rightarrow> string + 'd"
  writeText :: "'d \<Rightarrow> SceneNode \<Rightarrow> string \<Rightarrow> string + 'd"

text \<open>
  The running state of a batch command: the document, the \<^verbatim>\<open>results\<close> array, the two
  counters and the events posted so far.
\<close>

record ('d, 'r) batch =
  doc :: 'd
  results :: "'r list"
  successCount :: nat
  failureCount :: nat
  events :: "ProgressUpdate list"

definition CHUNK_SIZE :: nat where
  "CHUNK_SIZE = 5"

text \<open>\<^verbatim>\<open>Array.prototype.slice(start, end)\<close> for \<open>start \<le> end\<close>; the end is clamped.\<close>

definition slice :: "'a list \<Rightarrow> nat \<Rightarrow> nat \<Rightarrow> 'a list" where
  "slice xs start end' = take (end' - start) (drop start xs)"

text \<open>
  \<^verbatim>\<open>for (let i = 0; i < items.length; i += CHUNK_SIZE) chunks.push(items.slice(i, i + CHUNK_SIZE))\<close>,
  the same loop in \<^verbatim>\<open>setMultipleTextContents\<close> and \<^verbatim>\<open>deleteMultipleNodes\<close>.
\<close>

function split_chunks :: "'a list \<Rightarrow> nat \<Rightarrow> 'a list list \<Rightarrow> 'a list list" where
  "split_chunks items i chunks =
     (if i < length items
      then split_chunks items (i + CHUNK_SIZE) (chunks @ [slice items i (i + CHUNK_SIZE)])
      else chunks)"
  by pat_completeness auto
termination
  by (relation "measure (\<lambda>(items, i, chunks). length items - i)") (auto simp: CHUNK_SIZE_def)

text \<open>
  \<^verbatim>\<open>chunkResults.forEach\<close>: one counter is incremented and the result is pushed, for each
  result in order.
\<close>

fun count_results :: "('r \<Rightarrow> bool) \<Rightarrow> 'r list \<Rightarrow> ('d, 'r) batch \<Rightarrow> ('d, 'r) batch" where
  "count_results ok [] b = b"
| "count_results ok (r # rs) b =
     count_results ok rs
       (if ok r then b\<lparr>successCount := successCount b + 1, results := results b @ [r]\<rparr>
        else b\<lparr>failureCount := failureCount b + 1, results := results b @ [r]\<rparr>)"

text \<open>
  The loop over the chunks, which the two commands share word for word but for the command
  type and the work done on an item.  \<open>processChunk\<close> is the \<^verbatim>\<open>chunk.map(async ...)\<close>
  with its \<^verbatim>\<open>Promise.all\<close>, and \<open>ok\<close> reads \<^verbatim>\<open>result.success\<close>.  The pauses between
  chunks change no state.  \<open>process_chunk\<close> is the body of the loop for one chunk: the event
  before the chunk, the work, the counting and the event after it.
\<close>

definition process_chunk ::
  "string \<Rightarrow> string \<Rightarrow> ('r \<Rightarrow> bool) \<Rightarrow> ('d \<Rightarrow> 'i list \<Rightarrow> 'r list \<times> 'd) \<Rightarrow> nat \<Rightarrow> 'i list list
     \<Rightarrow> nat \<Rightarrow> ('d, 'r) batch \<Rightarrow> ('d, 'r) batch"
where
  "process_chunk cmdId cmdType ok processChunk itemCount chunks chunkIndex b =
     (let chunk = chunks ! chunkIndex;
          b1 = b\<lparr>events := events b @
                 [sendProgressUpdate cmdId cmdType InProgress
                    (chunk_progress chunkIndex (length chunks)) itemCount
                    (successCount b + failureCount b)
                    (Some (Some (chunkIndex + 1), Some (length chunks)))]\<rparr>;
          chunkResults = fst (processChunk (doc b1) chunk);
          b2 = count_results ok chunkResults (b1\<lparr>doc := snd (processChunk (doc b1) chunk)\<rparr>)
      in b2\<lparr>events := events b2 @
              [sendProgressUpdate cmdId cmdType InProgress
                 (chunk_progress (chunkIndex + 1) (length chunks)) itemCount
                 (successCount b2 + failureCount b2)
                 (Some (Some (chunkIndex + 1), Some (length chunks)))]\<rparr>)"

function process_chunks ::
  "string \<Rightarrow> string \<Rightarrow> ('r \<Rightarrow> bool) \<Rightarrow> ('d \<Rightarrow> 'i list \<Rightarrow> 'r list \<times> 'd) \<Rightarrow> nat \<Rightarrow> 'i list list
     \<Rightarrow> nat \<Rightarrow> ('d, 'r) batch \<Rightarrow> ('d, 'r) batch"
where
  "process_chunks cmdId cmdType ok processChunk itemCount chunks chunkIndex b =
     (if chunkIndex < length chunks then
        process_chunks cmdId cmdType ok processChunk itemCount chunks (chunkIndex + 1)
          (process_chunk cmdId cmdType ok processChunk itemCount chunks chunkIndex b)
      else b)"
  by pat_completeness auto
termination
  by (relation "measure (\<lambda>(cmdId, cmdType, ok, processChunk, itemCount, chunks, chunkIndex, b).
        length chunks - chunkIndex)") auto

subsection \<open>Deleting many nodes\<close>

record DeleteResult =
  del_success :: bool
  del_nodeId :: string
  del_nodeInfo :: "(string \<times> string \<times> string) option"
  del_error :: "string option"

text \<open>
  One chunk of deletions.  \<^verbatim>\<open>chunk.map\<close> starts every item's function, which runs up to
  its \<^verbatim>\<open>await figma.getNodeByIdAsync(nodeId)\<close>: the lookups of a chunk are all issued on
  the document as the chunk finds it.  The functions then resume in order, each removing the
  node it was given; \<^verbatim>\<open>Promise.all\<close> returns the results in the order of the items.
\<close>

fun deleteResumed ::
  "'d host \<Rightarrow> 'd \<Rightarrow> (string \<times> (string + SceneNode option)) list \<Rightarrow> DeleteResult list \<times> 'd"
where
  "deleteResumed h d [] = ([], d)"
| "deleteResumed h d ((nodeId, Inl msg) # rest) =
     (case deleteResumed h d rest of (rs, d') \<Rightarrow>
        (\<lparr>del_success = False, del_nodeId = nodeId, del_nodeInfo = None, del_error = Some msg\<rparr> # rs, d'))"
| "deleteResumed h d ((nodeId, Inr None) # rest) =
     (case deleteResumed h d rest of (rs, d') \<Rightarrow>
        (\<lparr>del_success = False, del_nodeId = nodeId, del_nodeInfo = None,
          del_error = Some (''Node not found: '' @ nodeId)\<rparr> # rs, d'))"
| "deleteResumed h d ((nodeId, Inr (Some node)) # rest) =
     (case remove h d node of
        Inl msg \<Rightarrow>
          (case deleteResumed h d rest of (rs, d') \<Rightarrow>
             (\<lparr>del_success = False, del_nodeId = nodeId, del_nodeInfo = None, del_error = Some msg\<rparr>
                # rs, d'))
      | Inr d1 \<Rightarrow>
          (case deleteResumed h d1 rest of (rs, d') \<Rightarrow>
             (\<lparr>del_success = True, del_nodeId = nodeId,
               del_nodeInfo = Some (node_id node, node_name node, node_type node),
               del_error = None\<rparr> # rs, d')))"

definition deleteChunk :: "'d host \<Rightarrow> 'd \<Rightarrow> string list \<Rightarrow> DeleteResult list \<times> 'd" where
  "deleteChunk h d chunk =
     deleteResumed h d (map (\<lambda>nodeId. (nodeId, getNodeByIdAsync h d nodeId)) chunk)"

record DeleteSummary =
  ds_success :: bool
  nodesDeleted :: nat
  nodesFailed :: nat
  totalNodes :: nat
  ds_results :: "DeleteResult list"
  ds_completedInChunks :: nat
  ds_commandId :: string

text \<open>
  \<^verbatim>\<open>deleteMultipleNodes(params)\<close>.  \<open>nodeIds\<close> is \<open>None\<close> when the parameter is missing or
  is not an array; \<open>cmdId\<close> is the id \<^verbatim>\<open>generateCommandId()\<close> draws.  The result is the
  events posted, the value returned or the message of the error thrown, and the document.
\<close>

definition deleteMultipleNodes ::
  "'d host \<Rightarrow> string \<Rightarrow> 'd \<Rightarrow> string list option
     \<Rightarrow> ProgressUpdate list \<times> (string + DeleteSummary) \<times> 'd"
where
  "deleteMultipleNodes h cmdId d nodeIds =
     (if nodeIds = None \<or> nodeIds = Some [] then
        ([sendProgressUpdate cmdId ''delete_multiple_nodes'' Error 0 0 0 (Some (None, None))],
         Inl ''Missing or invalid nodeIds parameter'', d)
      else
        (let ids = the nodeIds;
             started = sendProgressUpdate cmdId ''delete_multiple_nodes'' Started 0 (length ids) 0
                         (Some (None, None));
             chunks = split_chunks ids 0 [];
             planned = sendProgressUpdate cmdId ''delete_multiple_nodes'' InProgress 5 (length ids) 0
                         (Some (None, None));
             b = process_chunks cmdId ''delete_multiple_nodes'' del_success (deleteChunk h)
                   (length ids) chunks 0
                   \<lparr>doc = d, results = [], successCount = 0, failureCount = 0,
                    events = [started, planned]\<rparr>;
             done = sendProgressUpdate cmdId ''delete_multiple_nodes'' Completed 100 (length ids)
                      (successCount b + failureCount b) (Some (None, None))
         in (events b @ [done],
             Inr \<lparr>ds_success = (successCount b > 0), nodesDeleted = successCount b,
                  nodesFailed = failureCount b, totalNodes = length ids, ds_results = results b,
                  ds_completedInChunks = length chunks, ds_commandId = cmdId\<rparr>,
             doc b)))"

subsection \<open>Replacing many texts\<close>

record Replacement =
  replacement_nodeId :: "string option"
  replacement_text :: "string option"

record ReplaceResult =
  rep_success :: bool
  rep_nodeId :: string
  rep_originalText :: "string option"
  rep_translatedText :: "string option"
  rep_error :: "string option"

text \<open>
  \<^verbatim>\<open>setTextContent(params)\<close>: the value returned is not used by the batch command, so
  the result is the document, or the message of the error thrown.  A parameter is \<open>None\<close>
  when it is \<^verbatim>\<open>undefined\<close>; an empty node id is falsy as well.
\<close>

definition setTextContent :: "'d host \<Rightarrow> 'd \<Rightarrow> string option \<Rightarrow> string option \<Rightarrow> string + 'd" where
  "setTextContent h d nodeId txt =
     (if nodeId = None \<or> nodeId = Some [] then Inl ''Missing nodeId parameter''
      else if txt = None then Inl ''Missing text parameter''
      else case getNodeByIdAsync h d (the nodeId) of
             Inl msg \<Rightarrow> Inl msg
           | Inr None \<Rightarrow> Inl (''Node not found with ID: '' @ the nodeId)
           | Inr (Some node) \<Rightarrow>
               if node_type node \<noteq> ''TEXT'' then Inl (''Node is not a text node: '' @ the nodeId)
               else (case writeText h d node (the txt) of
                       Inl msg \<Rightarrow> Inl (''Error setting text content: '' @ msg)
                     | Inr d' \<Rightarrow> Inr d'))"

text \<open>
  The work on one replacement: the body of the function mapped over a chunk.  The highlight
  of the node, set and restored around the change, is not modelled.
\<close>

definition replaceOne :: "'d host \<Rightarrow> 'd \<Rightarrow> Replacement \<Rightarrow> ReplaceResult \<times> 'd" where
  "replaceOne h d replacement =
     (if replacement_nodeId replacement = None \<or> replacement_nodeId replacement = Some []
         \<or> replacement_text replacement = None
      then (\<lparr>rep_success = False,
             rep_nodeId = (if replacement_nodeId replacement = None
                              \<or> replacement_nodeId replacement = Some []
                           then ''unknown'' else the (replacement_nodeId replacement)),
             rep_originalText = None,
             rep_translatedText = None,
             rep_error = Some ''Missing nodeId or text in replacement entry''\<rparr>, d)
      else
        (let nodeId = the (replacement_nodeId replacement)
         in case getNodeByIdAsync h d nodeId of
              Inl msg \<Rightarrow>
                (\<lparr>rep_success = False, rep_nodeId = nodeId, rep_originalText = None,
                  rep_translatedText = None,
                  rep_error = Some (''Error applying replacement: '' @ msg)\<rparr>, d)
            | Inr None \<Rightarrow>
                (\<lparr>rep_success = False, rep_nodeId = nodeId, rep_originalText = None,
                  rep_translatedText = None,
                  rep_error = Some (''Node not found: '' @ nodeId)\<rparr>, d)
            | Inr (Some textNode) \<Rightarrow>
                if node_type textNode \<noteq> ''TEXT'' then
                  (\<lparr>rep_success = False, rep_nodeId = nodeId, rep_originalText = None,
                    rep_translatedText = None,
                    rep_error = Some (''Node is not a text node: '' @ nodeId @ '' (type: ''
                                        @ node_type textNode @ '')'')\<rparr>, d)
                else
                  (case setTextContent h d (Some nodeId) (replacement_text replacement) of
                     Inl msg \<Rightarrow>
                       (\<lparr>rep_success = False, rep_nodeId = nodeId, rep_originalText = None,
                         rep_translatedText = None,
                         rep_error = Some (''Error applying replacement: '' @ msg)\<rparr>, d)
                   | Inr d' \<Rightarrow>
                       (\<lparr>rep_success = True, rep_nodeId = nodeId,
                         rep_originalText = Some (node_characters textNode),
                         rep_translatedText = replacement_text replacement,
                         rep_error = None\<rparr>, d'))))"

text \<open>
  One chunk of replacements.  The items of a chunk are in flight together and each waits
  several times; the model runs them one after the other in the order of the chunk, which is
  the order \<^verbatim>\<open>Promise.all\<close> returns the results in.
\<close>

fun replaceChunk :: "'d host \<Rightarrow> 'd \<Rightarrow> Replacement list \<Rightarrow> ReplaceResult list \<times> 'd" where
  "replaceChunk h d [] = ([], d)"
| "replaceChunk h d (replacement # chunk) =
     (case replaceOne h d replacement of (r, d1) \<Rightarrow>
        (case replaceChunk h d1 chunk of (rs, d') \<Rightarrow> (r # rs, d')))"

record ReplaceSummary =
  rs_success :: bool
  rs_nodeId :: string
  replacementsApplied :: nat
  replacementsFailed :: nat
  totalReplacements :: nat
  rs_results :: "ReplaceResult list"
  rs_completedInChunks :: nat
  rs_commandId :: string

text \<open>
  \<^verbatim>\<open>setMultipleTextContents(params)\<close>.  \<open>nodeId\<close> is \<open>None\<close> when the parameter is
  missing, \<open>txt\<close> is \<open>None\<close> when the \<^verbatim>\<open>text\<close> parameter is missing or is not an array,
  and \<open>cmdId\<close> is \<^verbatim>\<open>params.commandId || generateCommandId()\<close>.
\<close>

definition setMultipleTextContents ::
  "'d host \<Rightarrow> string \<Rightarrow> 'd \<Rightarrow> string option \<Rightarrow> Replacement list option
     \<Rightarrow> ProgressUpdate list \<times> (string + ReplaceSummary) \<times> 'd"
where
  "setMultipleTextContents h cmdId d nodeId txt =
     (if nodeId = None \<or> nodeId = Some [] \<or> txt = None then
        ([sendProgressUpdate cmdId ''set_multiple_text_contents'' Error 0 0 0 (Some (None, None))],
         Inl ''Missing required parameters: nodeId and text array'', d)
      else
        (let items = the txt;
             started = sendProgressUpdate cmdId ''set_multiple_text_contents'' Started 0
                         (length items) 0 (Some (None, None));
             chunks = split_chunks items 0 [];
             planned = sendProgressUpdate cmdId ''set_multiple_text_contents'' InProgress 5
                         (length items) 0 (Some (None, None));
             b = process_chunks cmdId ''set_multiple_text_contents'' rep_success (replaceChunk h)
                   (length items) chunks 0
                   \<lparr>doc = d, results = [], successCount = 0, failureCount = 0,
                    events = [started, planned]\<rparr>;
             done = sendProgressUpdate cmdId ''set_multiple_text_contents'' Completed 100
                      (length items) (successCount b + failureCount b) (Some (None, None))
         in (events b @ [done],
             Inr \<lparr>rs_success = (successCount b > 0), rs_nodeId = the nodeId,
                  replacementsApplied = successCount b, replacementsFailed = failureCount b,
                  totalReplacements = length items, rs_results = results b,
                  rs_completedInChunks = length chunks, rs_commandId = cmdId\<rparr>,
             doc b)))"

text \<open>
  The counters agree with the results when each counts the results of its kind.
\<close>

definition counted :: "('r \<Rightarrow> bool) \<Rightarrow> ('d, 'r) batch \<Rightarrow> bool" where
  "counted ok b \<longleftrightarrow>
     successCount b = length (filter ok (results b))
     \<and> failureCount b = length (filter (\<lambda>r. \<not> ok r) (results b))"

text \<open>The node id a replacement's result carries: \<^verbatim>\<open>replacement.nodeId || "unknown"\<close>.\<close>

definition replacement_key :: "Replacement \<Rightarrow> string" where
  "replacement_key r =
     (if replacement_nodeId r = None \<or> replacement_nodeId r = Some [] then ''unknown''
      else the (replacement_nodeId r))"

text \<open>
  The contract on the events of one command: the first is \<^verbatim>\<open>started\<close> at \<open>0\<close>, the last
  is \<^verbatim>\<open>completed\<close> at \<open>100\<close>, the percentages never decrease, and every event between
  is \<^verbatim>\<open>in_progress\<close> with a percentage from \<open>5\<close> to \<open>95\<close>.
\<close>

definition progress_contract :: "ProgressUpdate list \<Rightarrow> bool" where
  "progress_contract evs \<longleftrightarrow>
     evs \<noteq> []
     \<and> status (hd evs) = Started \<and> progress (hd evs) = 0
     \<and> status (last evs) = Completed \<and> progress (last evs) = 100
     \<and> sorted (map progress evs)
     \<and> (\<forall>e \<in> set (butlast (tl evs)). status e = InProgress \<and> 5 \<le> progress e \<and> progress e \<le> 95)"

text \<open>
  A host for examples: the document is a list of nodes, a lookup finds the node of an id
  among them, a removal drops it and a write replaces its characters; no call fails.
\<close>

definition list_host :: "SceneNode list host" where
  "list_host =
     \<lparr>getNodeByIdAsync = (\<lambda>d nodeId. Inr (find (\<lambda>n. node_id n = nodeId) d)),
      remove = (\<lambda>d node. Inr (filter (\<lambda>n. node_id n \<noteq> node_id node) d)),
      writeText = (\<lambda>d node t. Inr (map (\<lambda>n. if node_id n = node_id node
         then SceneNode (node_id n) (node_name n) (node_type n) (visible n) t (children n)
         else n) d))\<rparr>"

subsection \<open>Scanning text nodes\<close>

text \<open>
  The running state of the chunked scan: \<^verbatim>\<open>allTextNodes\<close>, \<^verbatim>\<open>processedNodes\<close>,
  \<^verbatim>\<open>chunksProcessed\<close> and the events posted; \<open>scan_slices\<close> records the slices
  \<^verbatim>\<open>nodesToProcess.slice(i, chunkEnd)\<close> the loop has taken, in order.
\<close>

record ScanState =
  allTextNodes :: "TextNodeInfo list"
  processedNodes :: nat
  chunksProcessed :: nat
  scan_events :: "ProgressUpdate list"
  scan_slices :: "NodeInfo list list"

text \<open>
  \<^verbatim>\<open>processTextNode(node, parentPath, depth)\<close> for the nodes of a chunk whose type is
  \<^verbatim>\<open>TEXT\<close>; the highlight it sets and restores is not modelled.
\<close>

definition processChunkNodes :: "NodeInfo list \<Rightarrow> TextNodeInfo list" where
  "processChunkNodes chunkNodes =
     map (\<lambda>nodeInfo. safeTextNode (info_node nodeInfo) (info_parentPath nodeInfo) (info_depth nodeInfo))
       (filter (\<lambda>nodeInfo. node_type (info_node nodeInfo) = ''TEXT'') chunkNodes)"

text \<open>
  The body of the loop \<^verbatim>\<open>for (let i = 0; i < totalNodes; i += chunkSize)\<close> for one
  chunk: the event before the chunk, the slice, the text nodes of the slice, the counters
  and the event after it.
\<close>

definition scan_chunk :: "string \<Rightarrow> nat \<Rightarrow> nat \<Rightarrow> NodeInfo list \<Rightarrow> nat \<Rightarrow> ScanState \<Rightarrow> ScanState" where
  "scan_chunk cmdId chunkSize chunkCount nodesToProcess i s =
     (let chunkEnd = min (i + chunkSize) (length nodesToProcess);
          before = sendProgressUpdate cmdId ''scan_text_nodes'' InProgress
                     (chunk_progress (chunksProcessed s) chunkCount) (length nodesToProcess)
                     (processedNodes s) (Some (Some (chunksProcessed s + 1), Some chunkCount));
          chunkNodes = slice nodesToProcess i chunkEnd;
          chunkTextNodes = processChunkNodes chunkNodes;
          s1 = s\<lparr>allTextNodes := allTextNodes s @ chunkTextNodes,
                  processedNodes := processedNodes s + length chunkNodes,
                  chunksProcessed := chunksProcessed s + 1,
                  scan_slices := scan_slices s @ [chunkNodes]\<rparr>;
          after = sendProgressUpdate cmdId ''scan_text_nodes'' InProgress
                    (chunk_progress (chunksProcessed s1) chunkCount) (length nodesToProcess)
                    (processedNodes s1) (Some (Some (chunksProcessed s1), Some chunkCount))
      in s1\<lparr>scan_events := scan_events s @ [before, after]\<rparr>)"

text \<open>
  The loop.  The chunk size is a parameter of the command: with \<open>chunkSize = 0\<close> and a node
  to process the loop never ends, in the code and in the model, which is why the function is
  partial.  (\<^verbatim>\<open>Math.ceil(totalNodes / 0)\<close> is then \<^verbatim>\<open>Infinity\<close>, which the events of such
  a run would carry; the model has \<open>0\<close> there.)
\<close>

partial_function (option) scan_loop ::
  "string \<Rightarrow> nat \<Rightarrow> nat \<Rightarrow> NodeInfo list \<Rightarrow> nat \<Rightarrow> ScanState \<Rightarrow> ScanState option"
where
  "scan_loop cmdId chunkSize chunkCount nodesToProcess i s =
     (if i < length nodesToProcess then
        scan_loop cmdId chunkSize chunkCount nodesToProcess (i + chunkSize)
          (scan_chunk cmdId chunkSize chunkCount nodesToProcess i s)
      else Some s)"

declare scan_loop.simps [code]



text \<open>
  The chunks of a list for a chunk size, for comparison with the chunking code: the first
  \<open>chunkSize\<close> items, then the chunks of the rest.
\<close>

fun chunks_of :: "nat \<Rightarrow> 'a list \<Rightarrow> 'a list list" where
  "chunks_of chunkSize xs =
     (if chunkSize = 0 \<or> xs = [] then []
      else take chunkSize xs # chunks_of chunkSize (drop chunkSize xs))"

section \<open>The command dispatcher\<close>

text \<open>
  \<^verbatim>\<open>handleCommand(command, params)\<close>.  The handlers are a parameter: \<open>handlers name params\<close>
  is what the handler routed to by \<open>name\<close> does with the parameters, \<open>Inr\<close> the result it
  returns and \<open>Inl\<close> the message of the error it throws.  \<open>command_names\<close> are the
  \<^verbatim>\<open>case\<close> labels of the \<^verbatim>\<open>switch\<close>.  Two cases check a parameter before they call the
  handler.  The case \<^verbatim>\<open>export_node_as_image\<close> calls \<^verbatim>\<open>sendCommandResult\<close> on both of its
  paths, a function the file never defines: the call in the \<^verbatim>\<open>catch\<close> block throws a
  \<^verbatim>\<open>ReferenceError\<close> that leaves \<^verbatim>\<open>handleCommand\<close>.
\<close>

record Params =
  param_nodeId :: "string option"
  param_nodeIds :: "string list option"





section \<open>Delimiter segments: results\<close>

declare getDelimiterPos_loop.simps [simp del]
declare delimiter_segments_spec.simps [simp del]

lemma getDelimiterPos_loop_zero:
  "(case getDelimiterPos_loop str d 0 e i temp acc of
      (indices, t) \<Rightarrow> if t \<noteq> e then indices @ [(t, e)] else indices)
   = acc @ delimiter_segments_spec str d e i temp"
proof (induction "e - i" arbitrary: i temp acc)
  case 0
  then show ?case
    by (subst getDelimiterPos_loop.simps, subst delimiter_segments_spec.simps) simp
next
  case (Suc n)
  then have lt: "i < e" and n: "n = e - (i + 1)" by simp_all
  show ?case
    using Suc(1) [OF n] lt
    by (subst getDelimiterPos_loop.simps, subst delimiter_segments_spec.simps) simp
qed

lemma getDelimiterPos_zero_refines_spec:
  "getDelimiterPos str d 0 e = getDelimiterPos_spec str d 0 e"
  using getDelimiterPos_loop_zero [where str = str and d = d and e = e and i = 0 and temp = 0 and acc = "[]"]
  by (simp add: getDelimiterPos_def getDelimiterPos_spec_def)

text \<open>
  Claim C5.  The segments \<^verbatim>\<open>getDelimiterPos\<close> returns are those of the left-to-right scan
  the specification describes, with every boundary inside \<open>[startIdx, endIdx]\<close>, also for
  \<open>startIdx > 0\<close>.  The code adds \<open>startIdx\<close> to a loop counter that already starts at
  \<open>startIdx\<close>: on the second line of \<^verbatim>\<open>"ab\nc d"\<close>, the range \<open>[3, 6)\<close> that
  \<^verbatim>\<open>buildLinearOrder\<close> passes for a line of mixed fonts, it returns \<open>[3, 7]\<close> and \<open>[8, 6]\<close>,
  where the scan of the specification gives \<open>[3, 4]\<close> and \<open>[5, 6]\<close>.
\<close>

theorem getDelimiterPos_offset_escapes_range:
  "getDelimiterPos (''ab'' @ [newline] @ ''c d'') CHR '' '' 3 6 = [(3, 7), (8, 6)]
   \<and> getDelimiterPos_spec (''ab'' @ [newline] @ ''c d'') CHR '' '' 3 6 = [(3, 4), (5, 6)]"
  by (simp add: getDelimiterPos_def getDelimiterPos_spec_def newline_def
      getDelimiterPos_loop.simps [of _ _ _ _ 3] getDelimiterPos_loop.simps [of _ _ _ _ 4]
      getDelimiterPos_loop.simps [of _ _ _ _ 5] getDelimiterPos_loop.simps [of _ _ _ _ 6]
      delimiter_segments_spec.simps [of _ _ _ 3] delimiter_segments_spec.simps [of _ _ _ 4]
      delimiter_segments_spec.simps [of _ _ _ 5] delimiter_segments_spec.simps [of _ _ _ 6])

section \<open>The smart strategy: results\<close>

lemma indexOf_after:
  assumes "indexOf s c p > int p"
  shows "nat (indexOf s c p) < length s \<and> p < nat (indexOf s c p) \<and> s ! nat (indexOf s c p) = c
         \<and> (\<forall>k. p \<le> k \<and> k < nat (indexOf s c p) \<longrightarrow> s ! k \<noteq> c)"
proof (cases "find (\<lambda>i. s ! i = c) [p ..< length s]")
  case None
  with assms show ?thesis by (simp add: indexOf_def)
next
  case (Some i)
  then obtain j where j: "j < length [p ..< length s]" "s ! ([p ..< length s] ! j) = c"
      "i = [p ..< length s] ! j" "\<forall>m<j. s ! ([p ..< length s] ! m) \<noteq> c"
    unfolding find_Some_iff by blast
  from j(1) have jlt: "j < length s - p" by simp
  with j(3) have i: "i = p + j" by simp
  have before: "s ! k \<noteq> c" if "p \<le> k" "k < i" for k
  proof -
    from that i have "k - p < j" by arith
    with j(4) have "s ! ([p ..< length s] ! (k - p)) \<noteq> c" by blast
    moreover from that i jlt have "[p ..< length s] ! (k - p) = k" by simp
    ultimately show ?thesis by simp
  qed
  from Some have idx: "nat (indexOf s c p) = i" "indexOf s c p = int i"
    by (simp_all add: indexOf_def)
  with assms have "p < i" by simp
  with idx(1) i jlt j(2) j(3) before show ?thesis by simp
qed

lemma indexOf_eq_find:
  "indexOf s c p = (case find (\<lambda>i. s ! i = c) [p ..< length s] of None \<Rightarrow> - 1 | Some i \<Rightarrow> int i)"
  by (simp add: indexOf_def)

lemma find_from_cursor:
  assumes "p < length s"
  shows "find (\<lambda>i. s ! i = c) [p ..< length s]
         = (if s ! p = c then Some p else find (\<lambda>i. s ! i = c) [Suc p ..< length s])"
  using assms by (simp add: upt_conv_Cons)

lemma find_upt_ge:
  "find P [a ..< b] = Some i \<Longrightarrow> a \<le> i \<and> i < b"
  by (auto simp: find_Some_iff)

lemma smart_endPos_range:
  assumes "prevPos < length s"
  shows "prevPos < smart_endPos s d prevPos \<and> smart_endPos s d prevPos \<le> length s"
  using assms indexOf_after [of prevPos s d] by (auto simp: smart_endPos_def)

lemma smart_endPos_cases:
  assumes "prevPos < length s"
  shows "smart_endPos s d prevPos =
     (if s ! prevPos = d then length s
      else case find (\<lambda>i. s ! i = d) [prevPos ..< length s] of
             None \<Rightarrow> length s | Some i \<Rightarrow> i)"
proof (cases "s ! prevPos = d")
  case True
  with assms show ?thesis
    by (simp add: smart_endPos_def indexOf_def find_from_cursor)
next
  case False
  show ?thesis
  proof (cases "find (\<lambda>i. s ! i = d) [Suc prevPos ..< length s]")
    case None
    with False assms show ?thesis
      by (simp add: smart_endPos_def indexOf_def find_from_cursor)
  next
    case (Some i)
    with find_upt_ge [OF Some] False assms show ?thesis
      by (simp add: smart_endPos_def indexOf_def find_from_cursor)
  qed
qed

lemma applyRangeTree_step:
  assumes "prevPos < length (characters node)"
  shows "applyRangeTree (r # rangeTree) prevPos node calls =
     applyRangeTree rangeTree (smart_endPos (characters node) (run_delimiter r) prevPos + 1)
       (node\<lparr>charFonts :=
          take prevPos (charFonts node)
          @ replicate (smart_endPos (characters node) (run_delimiter r) prevPos - prevPos)
              \<lparr>family = run_family r, style = run_style r\<rparr>
          @ drop (smart_endPos (characters node) (run_delimiter r) prevPos) (charFonts node)\<rparr>)
       (calls @ [(prevPos, smart_endPos (characters node) (run_delimiter r) prevPos,
                  \<lparr>family = run_family r, style = run_style r\<rparr>)])
   \<and> setRangeFontName node prevPos (smart_endPos (characters node) (run_delimiter r) prevPos)
        \<lparr>family = run_family r, style = run_style r\<rparr>
      = Inr (node\<lparr>charFonts :=
          take prevPos (charFonts node)
          @ replicate (smart_endPos (characters node) (run_delimiter r) prevPos - prevPos)
              \<lparr>family = run_family r, style = run_style r\<rparr>
          @ drop (smart_endPos (characters node) (run_delimiter r) prevPos) (charFonts node)\<rparr>)"
  using assms smart_endPos_range [OF assms, of "run_delimiter r"]
  by (simp add: Let_def setRangeFontName_def smart_endPos_def)

lemma applyRangeTree_skip:
  assumes "length (characters node) \<le> prevPos"
  shows "applyRangeTree rangeTree prevPos node calls = Inr (prevPos, node, calls)"
  using assms by (induction rangeTree) simp_all

lemma filter_length_mono:
  "(\<And>x. P x \<Longrightarrow> Q x) \<Longrightarrow> length (filter P xs) \<le> length (filter Q xs)"
  by (induction xs) auto

lemma delimiters_after_step:
  assumes "prevPos < e" and "e < length s" and "s ! e \<in> D"
  shows "Suc (length (filter (\<lambda>c. c \<in> D) (drop (e + 1) s)))
         \<le> length (filter (\<lambda>c. c \<in> D) (drop prevPos s))"
proof -
  from assms(1,2) have "drop prevPos s = take (e - prevPos) (drop prevPos s) @ s ! e # drop (e + 1) s"
    by (metis Cons_nth_drop_Suc Suc_eq_plus1 add_diff_inverse_nat append_take_drop_id drop_drop
        less_imp_le_nat not_less add.commute)
  then have "length (filter (\<lambda>c. c \<in> D) (drop prevPos s))
      = length (filter (\<lambda>c. c \<in> D) (take (e - prevPos) (drop prevPos s)))
        + length (filter (\<lambda>c. c \<in> D) (s ! e # drop (e + 1) s))"
    by (metis filter_append length_append)
  with assms(3) show ?thesis by simp
qed

lemma applyRangeTree_total:
  "\<exists>prevPos' node' calls' k.
     applyRangeTree rangeTree prevPos node calls = Inr (prevPos', node', calls @ calls')
     \<and> characters node' = characters node
     \<and> (\<forall>c \<in> set calls'. prevPos \<le> fst c \<and> fst c < fst (snd c)
            \<and> fst (snd c) \<le> length (characters node))
     \<and> k \<le> length rangeTree
     \<and> map (\<lambda>c. snd (snd c)) calls'
         = map (\<lambda>r. \<lparr>family = run_family r, style = run_style r\<rparr>) (take k rangeTree)
     \<and> (k < length rangeTree \<longrightarrow> length (characters node) \<le> prevPos')
     \<and> prevPos \<le> prevPos'
     \<and> length calls'
         \<le> (if prevPos < length (characters node)
             then Suc (length (filter (\<lambda>c. c \<in> run_delimiter ` set rangeTree)
                                 (drop prevPos (characters node))))
             else 0)"
proof (induction rangeTree arbitrary: prevPos node calls)
  case Nil
  show ?case by simp
next
  case (Cons r rangeTree)
  show ?case
  proof (cases "prevPos < length (characters node)")
    case False
    then have "applyRangeTree (r # rangeTree) prevPos node calls = Inr (prevPos, node, calls)"
      by (intro applyRangeTree_skip) simp
    with False show ?thesis
      by (intro exI [of _ prevPos] exI [of _ node] exI [of _ "[]"] exI [of _ 0]) simp
  next
    case True
    let ?s = "characters node"
    let ?e = "smart_endPos ?s (run_delimiter r) prevPos"
    let ?f = "\<lparr>family = run_family r, style = run_style r\<rparr>"
    let ?n = "node\<lparr>charFonts := take prevPos (charFonts node) @ replicate (?e - prevPos) ?f
                 @ drop ?e (charFonts node)\<rparr>"
    let ?D = "run_delimiter ` set (r # rangeTree)"
    let ?D' = "run_delimiter ` set rangeTree"
    from applyRangeTree_step [OF True, of r rangeTree calls]
    have step: "applyRangeTree (r # rangeTree) prevPos node calls =
        applyRangeTree rangeTree (?e + 1) ?n (calls @ [(prevPos, ?e, ?f)])"
      by blast
    from smart_endPos_range [OF True, of "run_delimiter r"]
    have range: "prevPos < ?e" "?e \<le> length ?s" by simp_all
    from Cons.IH [of "?e + 1" ?n "calls @ [(prevPos, ?e, ?f)]"]
    obtain prevPos' node' calls' k where ih:
      "applyRangeTree rangeTree (?e + 1) ?n (calls @ [(prevPos, ?e, ?f)])
         = Inr (prevPos', node', (calls @ [(prevPos, ?e, ?f)]) @ calls')"
      "characters node' = characters ?n"
      "\<forall>c \<in> set calls'. ?e + 1 \<le> fst c \<and> fst c < fst (snd c)
            \<and> fst (snd c) \<le> length (characters ?n)"
      "k \<le> length rangeTree"
      "map (\<lambda>c. snd (snd c)) calls'
         = map (\<lambda>r. \<lparr>family = run_family r, style = run_style r\<rparr>) (take k rangeTree)"
      "k < length rangeTree \<longrightarrow> length (characters ?n) \<le> prevPos'"
      "?e + 1 \<le> prevPos'"
      "length calls'
         \<le> (if ?e + 1 < length (characters ?n)
             then Suc (length (filter (\<lambda>c. c \<in> ?D') (drop (?e + 1) (characters ?n))))
             else 0)"
      by blast
    have bound: "length ((prevPos, ?e, ?f) # calls')
        \<le> Suc (length (filter (\<lambda>c. c \<in> ?D) (drop prevPos ?s)))"
    proof (cases "?e + 1 < length ?s")
      case False
      with ih(8) show ?thesis by simp
    next
      case more: True
      then have lt: "?e < length ?s" by simp
      then have idx: "indexOf ?s (run_delimiter r) prevPos > int prevPos"
        by (auto simp: smart_endPos_def split: if_splits)
      from indexOf_after [OF idx] idx have "?s ! ?e = run_delimiter r"
        by (simp add: smart_endPos_def)
      then have "?s ! ?e \<in> ?D" by simp
      from delimiters_after_step [OF range(1) lt this]
      have "Suc (length (filter (\<lambda>c. c \<in> ?D) (drop (?e + 1) ?s)))
          \<le> length (filter (\<lambda>c. c \<in> ?D) (drop prevPos ?s))" .
      moreover have "length (filter (\<lambda>c. c \<in> ?D') (drop (?e + 1) ?s))
          \<le> length (filter (\<lambda>c. c \<in> ?D) (drop (?e + 1) ?s))"
        by (rule filter_length_mono) auto
      ultimately show ?thesis using ih(8) more by simp
    qed
    have "applyRangeTree (r # rangeTree) prevPos node calls
            = Inr (prevPos', node', calls @ ((prevPos, ?e, ?f) # calls'))"
      using step ih(1) by simp
    moreover have "characters node' = characters node"
      using ih(2) by simp
    moreover have "\<forall>c \<in> set ((prevPos, ?e, ?f) # calls'). prevPos \<le> fst c \<and> fst c < fst (snd c)
            \<and> fst (snd c) \<le> length (characters node)"
      using ih(3) range by auto
    moreover have "Suc k \<le> length (r # rangeTree)"
      using ih(4) by simp
    moreover have "map (\<lambda>c. snd (snd c)) ((prevPos, ?e, ?f) # calls')
         = map (\<lambda>r. \<lparr>family = run_family r, style = run_style r\<rparr>) (take (Suc k) (r # rangeTree))"
      using ih(5) by simp
    moreover have "Suc k < length (r # rangeTree) \<longrightarrow> length (characters node) \<le> prevPos'"
      using ih(6) by simp
    moreover have "prevPos \<le> prevPos'"
      using ih(7) range by simp
    moreover have "length ((prevPos, ?e, ?f) # calls')
         \<le> (if prevPos < length (characters node)
             then Suc (length (filter (\<lambda>c. c \<in> ?D) (drop prevPos (characters node))))
             else 0)"
      using bound True by simp
    ultimately show ?thesis
      by blast
  qed
qed

text \<open>
  Claim C6.  As stated (the end of every run's range is the next delimiter at or after the
  cursor, for every run) the walk would give the first of two space-delimited runs the empty
  range \<open>[0, 0)\<close> of the new text \<^verbatim>\<open>" ab"\<close> and the second \<open>[1, 3)\<close>.  The code tests
  \<^verbatim>\<open>delimeterPos > prevPos\<close>: a delimiter standing at the cursor counts as not found, the
  first run takes \<open>[0, 3)\<close>, and the second run is skipped.
\<close>

theorem smart_delimiter_at_cursor_counterexample:
  "setCharactersWithSmartMatchFont (\<lambda>f. True)
     [\<lparr>run_family = ''Arial'', run_style = ''Bold'', run_delimiter = CHR '' ''\<rparr>,
      \<lparr>run_family = ''Georgia'', run_style = ''Italic'', run_delimiter = CHR '' ''\<rparr>]
     \<lparr>characters = ''x y'',
      charFonts = [\<lparr>family = ''Arial'', style = ''Bold''\<rparr>, \<lparr>family = ''Arial'', style = ''Bold''\<rparr>,
                   \<lparr>family = ''Georgia'', style = ''Italic''\<rparr>]\<rparr>
     '' ab'' \<lparr>family = ''Inter'', style = ''Regular''\<rparr>
   = Inr (True,
          \<lparr>characters = '' ab'',
           charFonts = [\<lparr>family = ''Arial'', style = ''Bold''\<rparr>, \<lparr>family = ''Arial'', style = ''Bold''\<rparr>,
                        \<lparr>family = ''Arial'', style = ''Bold''\<rparr>]\<rparr>,
          [(0, 3, \<lparr>family = ''Arial'', style = ''Bold''\<rparr>)])
   \<and> smart_ranges_spec
     [\<lparr>run_family = ''Arial'', run_style = ''Bold'', run_delimiter = CHR '' ''\<rparr>,
      \<lparr>run_family = ''Georgia'', run_style = ''Italic'', run_delimiter = CHR '' ''\<rparr>]
     0 '' ab''
   = [(0, 0, \<lparr>family = ''Arial'', style = ''Bold''\<rparr>),
      (1, 3, \<lparr>family = ''Georgia'', style = ''Italic''\<rparr>)]"
  by (simp add: setCharactersWithSmartMatchFont_def uniqBy_def font_key_def set_fontName_def
      set_characters_def indexOf_def setRangeFontName_def upt_conv_Cons Let_def eval_nat_numeral)

text \<open>
  Claim C6, amended.  The walk starts at cursor \<open>0\<close> on the new text in the fallback font.
  A run met while the cursor is before the end of the new text is assigned \<open>[prevPos, end)\<close>
  and moves the cursor to \<open>end + 1\<close>, where \<open>end\<close> is the length of the text when the
  character at the cursor is the run's delimiter, and otherwise the index of the next
  occurrence of the delimiter after the cursor, or the length of the text when there is
  none.  A run met when the cursor is at or past the end is skipped.
\<close>

theorem smart_run_range:
  "(list_all loadFontAsync
      (map (\<lambda>r. \<lparr>family = run_family r, style = run_style r\<rparr>)
         (uniqBy runs (\<lambda>r. font_key (run_family r) (run_style r))) @ [fallbackFont]) \<longrightarrow>
    setCharactersWithSmartMatchFont loadFontAsync runs old chars fallbackFont
      = (case applyRangeTree runs 0
                \<lparr>characters = chars, charFonts = replicate (length chars) fallbackFont\<rparr> [] of
           Inl e \<Rightarrow> Inl e | Inr (p, n, cs) \<Rightarrow> Inr (True, n, cs)))
   \<and> (prevPos < length (characters node) \<longrightarrow>
       (\<exists>endPos node'.
          applyRangeTree (r # rangeTree) prevPos node calls
            = applyRangeTree rangeTree (endPos + 1) node'
                (calls @ [(prevPos, endPos, \<lparr>family = run_family r, style = run_style r\<rparr>)])
          \<and> setRangeFontName node prevPos endPos \<lparr>family = run_family r, style = run_style r\<rparr>
              = Inr node'
          \<and> endPos =
              (if characters node ! prevPos = run_delimiter r then length (characters node)
               else case find (\<lambda>i. characters node ! i = run_delimiter r)
                           [prevPos ..< length (characters node)] of
                      None \<Rightarrow> length (characters node) | Some i \<Rightarrow> i)
          \<and> prevPos < endPos \<and> endPos \<le> length (characters node)))
   \<and> (length (characters node) \<le> prevPos \<longrightarrow>
       applyRangeTree (r # rangeTree) prevPos node calls
         = applyRangeTree rangeTree prevPos node calls)"
proof (intro conjI impI)
  assume "list_all loadFontAsync
      (map (\<lambda>r. \<lparr>family = run_family r, style = run_style r\<rparr>)
         (uniqBy runs (\<lambda>r. font_key (run_family r) (run_style r))) @ [fallbackFont])"
  then show "setCharactersWithSmartMatchFont loadFontAsync runs old chars fallbackFont
      = (case applyRangeTree runs 0
                \<lparr>characters = chars, charFonts = replicate (length chars) fallbackFont\<rparr> [] of
           Inl e \<Rightarrow> Inl e | Inr (p, n, cs) \<Rightarrow> Inr (True, n, cs))"
    by (simp add: setCharactersWithSmartMatchFont_def set_fontName_def set_characters_def)
next
  assume lt: "prevPos < length (characters node)"
  let ?e = "smart_endPos (characters node) (run_delimiter r) prevPos"
  from applyRangeTree_step [OF lt, of r rangeTree calls] smart_endPos_range [OF lt, of "run_delimiter r"]
    smart_endPos_cases [OF lt, of "run_delimiter r"]
  show "\<exists>endPos node'.
          applyRangeTree (r # rangeTree) prevPos node calls
            = applyRangeTree rangeTree (endPos + 1) node'
                (calls @ [(prevPos, endPos, \<lparr>family = run_family r, style = run_style r\<rparr>)])
          \<and> setRangeFontName node prevPos endPos \<lparr>family = run_family r, style = run_style r\<rparr>
              = Inr node'
          \<and> endPos =
              (if characters node ! prevPos = run_delimiter r then length (characters node)
               else case find (\<lambda>i. characters node ! i = run_delimiter r)
                           [prevPos ..< length (characters node)] of
                      None \<Rightarrow> length (characters node) | Some i \<Rightarrow> i)
          \<and> prevPos < endPos \<and> endPos \<le> length (characters node)"
    by (intro exI [of _ ?e]) blast
next
  assume "length (characters node) \<le> prevPos"
  then show "applyRangeTree (r # rangeTree) prevPos node calls
         = applyRangeTree rangeTree prevPos node calls"
    by simp
qed

theorem smart_run_range_witness:
  "list_all (\<lambda>f. True)
      (map (\<lambda>r. \<lparr>family = run_family r, style = run_style r\<rparr>)
         (uniqBy [\<lparr>run_family = ''Arial'', run_style = ''Bold'', run_delimiter = CHR '' ''\<rparr>,
                  \<lparr>run_family = ''Georgia'', run_style = ''Italic'', run_delimiter = CHR '' ''\<rparr>]
            (\<lambda>r. font_key (run_family r) (run_style r)))
       @ [\<lparr>family = ''Inter'', style = ''Regular''\<rparr>])
   \<and> (0::nat) < length (characters \<lparr>characters = ''ab cd'',
         charFonts = replicate 5 \<lparr>family = ''Inter'', style = ''Regular''\<rparr>\<rparr>)
   \<and> setCharactersWithSmartMatchFont (\<lambda>f. True)
       [\<lparr>run_family = ''Arial'', run_style = ''Bold'', run_delimiter = CHR '' ''\<rparr>,
        \<lparr>run_family = ''Georgia'', run_style = ''Italic'', run_delimiter = CHR '' ''\<rparr>]
       \<lparr>characters = ''x y'', charFonts = replicate 3 \<lparr>family = ''Arial'', style = ''Bold''\<rparr>\<rparr>
       ''ab cd'' \<lparr>family = ''Inter'', style = ''Regular''\<rparr>
     = Inr (True,
         \<lparr>characters = ''ab cd'',
          charFonts = [\<lparr>family = ''Arial'', style = ''Bold''\<rparr>, \<lparr>family = ''Arial'', style = ''Bold''\<rparr>,
                       \<lparr>family = ''Inter'', style = ''Regular''\<rparr>,
                       \<lparr>family = ''Georgia'', style = ''Italic''\<rparr>,
                       \<lparr>family = ''Georgia'', style = ''Italic''\<rparr>]\<rparr>,
         [(0, 2, \<lparr>family = ''Arial'', style = ''Bold''\<rparr>),
          (3, 5, \<lparr>family = ''Georgia'', style = ''Italic''\<rparr>)])
   \<and> length (characters \<lparr>characters = ''ab'', charFonts = replicate 2 \<lparr>family = ''Inter'', style = ''Regular''\<rparr>\<rparr>)
       \<le> (3::nat)
   \<and> applyRangeTree
       [\<lparr>run_family = ''Georgia'', run_style = ''Italic'', run_delimiter = CHR '' ''\<rparr>] 3
       \<lparr>characters = ''ab'', charFonts = replicate 2 \<lparr>family = ''Inter'', style = ''Regular''\<rparr>\<rparr> []
     = Inr (3, \<lparr>characters = ''ab'', charFonts = replicate 2 \<lparr>family = ''Inter'', style = ''Regular''\<rparr>\<rparr>, [])"
  using smart_run_range [of "\<lambda>f. True"
      "[\<lparr>run_family = ''Arial'', run_style = ''Bold'', run_delimiter = CHR '' ''\<rparr>,
        \<lparr>run_family = ''Georgia'', run_style = ''Italic'', run_delimiter = CHR '' ''\<rparr>]"
      "\<lparr>family = ''Inter'', style = ''Regular''\<rparr>"
      "\<lparr>characters = ''x y'', charFonts = replicate 3 \<lparr>family = ''Arial'', style = ''Bold''\<rparr>\<rparr>"
      "''ab cd''" 3
      "\<lparr>characters = ''ab'', charFonts = replicate 2 \<lparr>family = ''Inter'', style = ''Regular''\<rparr>\<rparr>"
      "\<lparr>run_family = ''Georgia'', run_style = ''Italic'', run_delimiter = CHR '' ''\<rparr>" "[]" "[]"]
  by (simp add: uniqBy_def font_key_def indexOf_def setRangeFontName_def upt_conv_Cons
      Let_def eval_nat_numeral)

text \<open>
  Claim C10.  In the re-application loop a run is applied only while the cursor is before
  the end of the new text, and every range assigned is non-empty and inside the text.  Once
  the cursor is at or past the end, the remaining runs are skipped and the loop returns
  without error: the fonts applied are those of a prefix of the recorded runs, and when the
  prefix is proper the cursor has reached the end.  The runs applied are at most one more
  than the delimiter characters of the recorded runs in the new text, that is, at most the
  segments these delimiters cut the text into.  With the fonts loaded, the operation returns
  \<^verbatim>\<open>true\<close>.
\<close>

theorem smart_reapplication_stays_in_text:
  "(length (characters node) \<le> prevPos \<longrightarrow>
      applyRangeTree rangeTree prevPos node calls = Inr (prevPos, node, calls))
   \<and> (\<exists>prevPos' node' calls' k.
        applyRangeTree rangeTree prevPos node calls = Inr (prevPos', node', calls @ calls')
        \<and> characters node' = characters node
        \<and> (\<forall>c \<in> set calls'. prevPos \<le> fst c \<and> fst c < fst (snd c)
               \<and> fst (snd c) \<le> length (characters node))
        \<and> k \<le> length rangeTree
        \<and> map (\<lambda>c. snd (snd c)) calls'
            = map (\<lambda>r. \<lparr>family = run_family r, style = run_style r\<rparr>) (take k rangeTree)
        \<and> (k < length rangeTree \<longrightarrow> length (characters node) \<le> prevPos')
        \<and> length calls'
            \<le> Suc (length (filter (\<lambda>c. c \<in> run_delimiter ` set rangeTree)
                              (drop prevPos (characters node)))))
   \<and> (list_all loadFontAsync
        (map (\<lambda>r. \<lparr>family = run_family r, style = run_style r\<rparr>)
           (uniqBy rangeTree (\<lambda>r. font_key (run_family r) (run_style r))) @ [fallbackFont]) \<longrightarrow>
       (\<exists>node' calls' k.
          setCharactersWithSmartMatchFont loadFontAsync rangeTree old chars fallbackFont
            = Inr (True, node', calls')
          \<and> characters node' = chars
          \<and> (\<forall>c \<in> set calls'. fst c < fst (snd c) \<and> fst (snd c) \<le> length chars)
          \<and> k \<le> length rangeTree
          \<and> map (\<lambda>c. snd (snd c)) calls'
              = map (\<lambda>r. \<lparr>family = run_family r, style = run_style r\<rparr>) (take k rangeTree)
          \<and> length calls'
              \<le> Suc (length (filter (\<lambda>c. c \<in> run_delimiter ` set rangeTree) chars))))"
proof (intro conjI impI)
  assume "length (characters node) \<le> prevPos"
  then show "applyRangeTree rangeTree prevPos node calls = Inr (prevPos, node, calls)"
    by (rule applyRangeTree_skip)
next
  from applyRangeTree_total [of rangeTree prevPos node calls]
  obtain prevPos' node' calls' k where t:
    "applyRangeTree rangeTree prevPos node calls = Inr (prevPos', node', calls @ calls')"
    "characters node' = characters node"
    "\<forall>c \<in> set calls'. prevPos \<le> fst c \<and> fst c < fst (snd c)
               \<and> fst (snd c) \<le> length (characters node)"
    "k \<le> length rangeTree"
    "map (\<lambda>c. snd (snd c)) calls'
            = map (\<lambda>r. \<lparr>family = run_family r, style = run_style r\<rparr>) (take k rangeTree)"
    "k < length rangeTree \<longrightarrow> length (characters node) \<le> prevPos'"
    "length calls'
         \<le> (if prevPos < length (characters node)
             then Suc (length (filter (\<lambda>c. c \<in> run_delimiter ` set rangeTree)
                                 (drop prevPos (characters node))))
             else 0)"
    by blast
  from t(7) have "length calls'
      \<le> Suc (length (filter (\<lambda>c. c \<in> run_delimiter ` set rangeTree)
                        (drop prevPos (characters node))))"
    by (simp split: if_splits)
  with t(1-6)
  show "\<exists>prevPos' node' calls' k.
        applyRangeTree rangeTree prevPos node calls = Inr (prevPos', node', calls @ calls')
        \<and> characters node' = characters node
        \<and> (\<forall>c \<in> set calls'. prevPos \<le> fst c \<and> fst c < fst (snd c)
               \<and> fst (snd c) \<le> length (characters node))
        \<and> k \<le> length rangeTree
        \<and> map (\<lambda>c. snd (snd c)) calls'
            = map (\<lambda>r. \<lparr>family = run_family r, style = run_style r\<rparr>) (take k rangeTree)
        \<and> (k < length rangeTree \<longrightarrow> length (characters node) \<le> prevPos')
        \<and> length calls'
            \<le> Suc (length (filter (\<lambda>c. c \<in> run_delimiter ` set rangeTree)
                              (drop prevPos (characters node))))"
    by blast
next
  assume loads: "list_all loadFontAsync
        (map (\<lambda>r. \<lparr>family = run_family r, style = run_style r\<rparr>)
           (uniqBy rangeTree (\<lambda>r. font_key (run_family r) (run_style r))) @ [fallbackFont])"
  let ?n = "\<lparr>characters = chars, charFonts = replicate (length chars) fallbackFont\<rparr>"
  from applyRangeTree_total [of rangeTree 0 ?n "[]"]
  obtain prevPos' node' calls' k where raw:
    "applyRangeTree rangeTree 0 ?n [] = Inr (prevPos', node', [] @ calls')"
    "characters node' = characters ?n"
    "\<forall>c \<in> set calls'. 0 \<le> fst c \<and> fst c < fst (snd c)
        \<and> fst (snd c) \<le> length (characters ?n)"
    "k \<le> length rangeTree"
    "map (\<lambda>c. snd (snd c)) calls'
       = map (\<lambda>r. \<lparr>family = run_family r, style = run_style r\<rparr>) (take k rangeTree)"
    "length calls'
       \<le> (if 0 < length (characters ?n)
           then Suc (length (filter (\<lambda>c. c \<in> run_delimiter ` set rangeTree)
                               (drop 0 (characters ?n))))
           else 0)"
    by blast
  then have t:
    "applyRangeTree rangeTree 0 ?n [] = Inr (prevPos', node', calls')"
    "characters node' = chars"
    "\<forall>c \<in> set calls'. fst c < fst (snd c) \<and> fst (snd c) \<le> length chars"
    "k \<le> length rangeTree"
    "map (\<lambda>c. snd (snd c)) calls'
       = map (\<lambda>r. \<lparr>family = run_family r, style = run_style r\<rparr>) (take k rangeTree)"
    by simp_all
  from raw(6) have bound: "length calls'
      \<le> Suc (length (filter (\<lambda>c. c \<in> run_delimiter ` set rangeTree) chars))"
    by (auto split: if_splits)
  from loads t(1)
  have "setCharactersWithSmartMatchFont loadFontAsync rangeTree old chars fallbackFont
          = Inr (True, node', calls')"
    by (simp add: setCharactersWithSmartMatchFont_def set_fontName_def set_characters_def)
  with t(2-5) bound show "\<exists>node' calls' k.
          setCharactersWithSmartMatchFont loadFontAsync rangeTree old chars fallbackFont
            = Inr (True, node', calls')
          \<and> characters node' = chars
          \<and> (\<forall>c \<in> set calls'. fst c < fst (snd c) \<and> fst (snd c) \<le> length chars)
          \<and> k \<le> length rangeTree
          \<and> map (\<lambda>c. snd (snd c)) calls'
              = map (\<lambda>r. \<lparr>family = run_family r, style = run_style r\<rparr>) (take k rangeTree)
          \<and> length calls'
              \<le> Suc (length (filter (\<lambda>c. c \<in> run_delimiter ` set rangeTree) chars))"
    by blast
qed

theorem smart_reapplication_stays_in_text_witness:
  "length (characters \<lparr>characters = ''ab cd'',
       charFonts = replicate 5 \<lparr>family = ''Inter'', style = ''Regular''\<rparr>\<rparr>) \<le> (6::nat)
   \<and> applyRangeTree
       [\<lparr>run_family = ''Arial'', run_style = ''Bold'', run_delimiter = CHR '' ''\<rparr>] 6
       \<lparr>characters = ''ab cd'', charFonts = replicate 5 \<lparr>family = ''Inter'', style = ''Regular''\<rparr>\<rparr> []
     = Inr (6, \<lparr>characters = ''ab cd'',
                charFonts = replicate 5 \<lparr>family = ''Inter'', style = ''Regular''\<rparr>\<rparr>, [])
   \<and> list_all (\<lambda>f. True)
      (map (\<lambda>r. \<lparr>family = run_family r, style = run_style r\<rparr>)
         (uniqBy [\<lparr>run_family = ''Arial'', run_style = ''Bold'', run_delimiter = CHR '' ''\<rparr>]
            (\<lambda>r. font_key (run_family r) (run_style r)))
       @ [\<lparr>family = ''Inter'', style = ''Regular''\<rparr>])
   \<and> setCharactersWithSmartMatchFont (\<lambda>f. True)
       [\<lparr>run_family = ''Arial'', run_style = ''Bold'', run_delimiter = CHR '' ''\<rparr>,
        \<lparr>run_family = ''Georgia'', run_style = ''Italic'', run_delimiter = CHR '' ''\<rparr>,
        \<lparr>run_family = ''Arial'', run_style = ''Bold'', run_delimiter = CHR '' ''\<rparr>]
       \<lparr>characters = ''x y z'', charFonts = replicate 5 \<lparr>family = ''Arial'', style = ''Bold''\<rparr>\<rparr>
       ''ab cd'' \<lparr>family = ''Inter'', style = ''Regular''\<rparr>
     = Inr (True,
         \<lparr>characters = ''ab cd'',
          charFonts = [\<lparr>family = ''Arial'', style = ''Bold''\<rparr>, \<lparr>family = ''Arial'', style = ''Bold''\<rparr>,
                       \<lparr>family = ''Inter'', style = ''Regular''\<rparr>,
                       \<lparr>family = ''Georgia'', style = ''Italic''\<rparr>,
                       \<lparr>family = ''Georgia'', style = ''Italic''\<rparr>]\<rparr>,
         [(0, 2, \<lparr>family = ''Arial'', style = ''Bold''\<rparr>),
          (3, 5, \<lparr>family = ''Georgia'', style = ''Italic''\<rparr>)])"
  using smart_reapplication_stays_in_text [of
      "\<lparr>characters = ''ab cd'', charFonts = replicate 5 \<lparr>family = ''Inter'', style = ''Regular''\<rparr>\<rparr>"
      6 "[\<lparr>run_family = ''Arial'', run_style = ''Bold'', run_delimiter = CHR '' ''\<rparr>]" "[]"
      "\<lambda>f. True" "\<lparr>family = ''Inter'', style = ''Regular''\<rparr>"
      "\<lparr>characters = ''x y z'', charFonts = replicate 5 \<lparr>family = ''Arial'', style = ''Bold''\<rparr>\<rparr>"
      "''ab cd''"]
  by (simp add: setCharactersWithSmartMatchFont_def set_fontName_def set_characters_def
      uniqBy_def font_key_def indexOf_def setRangeFontName_def upt_conv_Cons
      Let_def eval_nat_numeral)

section \<open>The prevail strategy: results\<close>

text \<open>
  Claim C7.  The prevail strategy tallies every character of the text and assigns the most
  frequent font, the first key met winning a tie.  The loop of the code runs \<open>i\<close> from \<open>1\<close>
  while \<open>i < length\<close> and reads the character \<open>i - 1\<close>, so the last character is never
  tallied.  On a node \<^verbatim>\<open>"ABB"\<close> whose first character is Arial Bold and whose other two are
  Georgia Italic the code tallies one occurrence of each and assigns Arial Bold, where the
  tally of every character has Georgia Italic twice.
\<close>

theorem prevail_misses_last_character:
  "node_is_mixed \<lparr>characters = ''ABB'',
       charFonts = [\<lparr>family = ''Arial'', style = ''Bold''\<rparr>,
                    \<lparr>family = ''Georgia'', style = ''Italic''\<rparr>,
                    \<lparr>family = ''Georgia'', style = ''Italic''\<rparr>]\<rparr>
   \<and> prevail_loop \<lparr>characters = ''ABB'',
       charFonts = [\<lparr>family = ''Arial'', style = ''Bold''\<rparr>,
                    \<lparr>family = ''Georgia'', style = ''Italic''\<rparr>,
                    \<lparr>family = ''Georgia'', style = ''Italic''\<rparr>]\<rparr> 1 []
     = Inr [(''Arial::Bold'', 1), (''Georgia::Italic'', 1)]
   \<and> setCharacters_prevail (\<lambda>f. True) \<lparr>characters = ''ABB'',
       charFonts = [\<lparr>family = ''Arial'', style = ''Bold''\<rparr>,
                    \<lparr>family = ''Georgia'', style = ''Italic''\<rparr>,
                    \<lparr>family = ''Georgia'', style = ''Italic''\<rparr>]\<rparr>
       ''new'' \<lparr>family = ''Inter'', style = ''Regular''\<rparr>
     = Inr (True, \<lparr>characters = ''new'',
                   charFonts = [\<lparr>family = ''Arial'', style = ''Bold''\<rparr>,
                                \<lparr>family = ''Arial'', style = ''Bold''\<rparr>,
                                \<lparr>family = ''Arial'', style = ''Bold''\<rparr>]\<rparr>)
   \<and> prevail_tally_spec \<lparr>characters = ''ABB'',
       charFonts = [\<lparr>family = ''Arial'', style = ''Bold''\<rparr>,
                    \<lparr>family = ''Georgia'', style = ''Italic''\<rparr>,
                    \<lparr>family = ''Georgia'', style = ''Italic''\<rparr>]\<rparr>
     = [(''Arial::Bold'', 1), (''Georgia::Italic'', 2)]
   \<and> prevailedFont_spec \<lparr>characters = ''ABB'',
       charFonts = [\<lparr>family = ''Arial'', style = ''Bold''\<rparr>,
                    \<lparr>family = ''Georgia'', style = ''Italic''\<rparr>,
                    \<lparr>family = ''Georgia'', style = ''Italic''\<rparr>]\<rparr>
     = Some \<lparr>family = ''Georgia'', style = ''Italic''\<rparr>"
  by (simp add: node_is_mixed_def setCharacters_prevail_def prevailedFont_def getCharFontName_def
      font_key_def sort_by_count_desc_def prevail_tally_spec_def prevailedFont_spec_def
      set_fontName_def set_characters_def eval_nat_numeral)

section \<open>The tree collector: results\<close>

lemma fold_appends:
  assumes "\<And>x acc. x \<in> set xs \<Longrightarrow> g (f x acc) = g acc @ h x"
  shows "g (fold f xs acc) = g acc @ concat (map h xs)"
  using assms by (induction xs arbitrary: acc) simp_all

lemma collectNodesToProcess_appends:
  "map info_node (collectNodesToProcess node parentPath depth acc)
     = map info_node acc @ visible_preorder node"
proof (induction node arbitrary: parentPath depth acc)
  case (SceneNode i n t v c cs)
  show ?case
  proof (cases "v = Some False")
    case True
    then show ?thesis by simp
  next
    case False
    let ?path = "parentPath @ [name_or_unnamed (SceneNode i n t v c cs)]"
    let ?pushed = "acc @ [\<lparr>info_node = SceneNode i n t v c cs, info_parentPath = ?path,
                          info_depth = depth\<rparr>]"
    have "map info_node
            (fold (\<lambda>child a. collectNodesToProcess child ?path (depth + 1) a) cs ?pushed)
          = map info_node ?pushed @ concat (map visible_preorder cs)"
      by (rule fold_appends) (simp add: SceneNode.IH)
    with False show ?thesis by (simp add: Let_def)
  qed
qed

lemma findTextNodes_appends:
  "map text_id (findTextNodes node parentPath depth acc)
     = map text_id acc
       @ map node_id (filter (\<lambda>m. node_type m = ''TEXT'') (visible_preorder node))"
proof (induction node arbitrary: parentPath depth acc)
  case (SceneNode i n t v c cs)
  show ?case
  proof (cases "v = Some False")
    case True
    then show ?thesis by simp
  next
    case False
    let ?path = "parentPath @ [name_or_unnamed (SceneNode i n t v c cs)]"
    let ?pushed = "if t = ''TEXT''
                   then acc @ [safeTextNode (SceneNode i n t v c cs) ?path depth] else acc"
    have "map text_id (fold (\<lambda>child a. findTextNodes child ?path (depth + 1) a) cs ?pushed)
          = map text_id ?pushed
            @ concat (map (\<lambda>ch. map node_id
                 (filter (\<lambda>m. node_type m = ''TEXT'') (visible_preorder ch))) cs)"
      by (rule fold_appends) (simp add: SceneNode.IH)
    with False show ?thesis
      by (simp add: Let_def safeTextNode_def map_concat filter_concat comp_def)
  qed
qed

lemma findNodesByTypes_appends:
  "map match_id (findNodesByTypes node types acc)
     = map match_id acc
       @ map node_id (filter (\<lambda>m. node_type m \<in> set types) (visible_preorder node))"
proof (induction node arbitrary: acc)
  case (SceneNode i n t v c cs)
  show ?case
  proof (cases "v = Some False")
    case True
    then show ?thesis by simp
  next
    case False
    let ?pushed = "if t \<in> set types
                   then acc @ [\<lparr>match_id = i, match_name = name_or_unnamed (SceneNode i n t v c cs),
                                match_type = t\<rparr>]
                   else acc"
    have "map match_id (fold (\<lambda>child a. findNodesByTypes child types a) cs ?pushed)
          = map match_id ?pushed
            @ concat (map (\<lambda>ch. map node_id
                 (filter (\<lambda>m. node_type m \<in> set types) (visible_preorder ch))) cs)"
      by (rule fold_appends) (simp add: SceneNode.IH)
    with False show ?thesis
      by (simp add: Let_def map_concat filter_concat comp_def)
  qed
qed

lemma subnodes_self: "node \<in> set (subnodes node)"
  by (cases node) simp

lemma subnodes_hd: "hd (subnodes node) = node"
  by (cases node) simp

lemma subnodes_trans:
  "n \<in> set (subnodes t) \<Longrightarrow> m \<in> set (subnodes n) \<Longrightarrow> m \<in> set (subnodes t)"
proof (induction t)
  case (SceneNode i nm ty v c cs)
  show ?case
  proof (cases "n = SceneNode i nm ty v c cs")
    case True
    with SceneNode.prems show ?thesis by simp
  next
    case False
    with SceneNode.prems obtain ch where "ch \<in> set cs" "n \<in> set (subnodes ch)"
      by auto
    with SceneNode.IH SceneNode.prems(2) have "m \<in> set (subnodes ch)" by blast
    with \<open>ch \<in> set cs\<close> show ?thesis by auto
  qed
qed

lemma subnodes_child_unique:
  assumes d: "distinct (map node_id (concat (map subnodes cs)))"
    and x: "x \<in> set cs" and y: "y \<in> set cs"
    and mx: "m \<in> set (subnodes x)" and my: "m \<in> set (subnodes y)"
  shows "x = y"
proof (rule ccontr)
  assume ne: "x \<noteq> y"
  from d have dc: "distinct (concat (map subnodes cs))"
    by (simp add: distinct_map)
  have "subnodes x \<noteq> subnodes y"
    using ne subnodes_hd [of x] subnodes_hd [of y] by auto
  with dc x y have "set (subnodes x) \<inter> set (subnodes y) = {}"
    by (auto simp: distinct_concat_iff)
  with mx my show False by blast
qed

lemma visible_preorder_filter:
  "distinct (map node_id (subnodes t)) \<Longrightarrow>
   visible_preorder t = filter (\<lambda>m. \<not> in_invisible_subtree t m) (subnodes t)"
proof (induction t)
  case (SceneNode i nm ty v c cs)
  let ?T = "SceneNode i nm ty v c cs"
  from SceneNode.prems have dcs: "distinct (map node_id (concat (map subnodes cs)))"
    and fresh: "i \<notin> node_id ` set (concat (map subnodes cs))"
    by simp_all
  show ?case
  proof (cases "v = Some False")
    case True
    have "in_invisible_subtree ?T m" if "m \<in> set (subnodes ?T)" for m
      unfolding in_invisible_subtree_def list_ex_iff
      using that True by (intro bexI [of _ ?T]) simp_all
    then have "filter (\<lambda>m. \<not> in_invisible_subtree ?T m) (subnodes ?T) = []"
      by (simp add: filter_empty_conv)
    with True show ?thesis by simp
  next
    case False
    have top: "\<not> in_invisible_subtree ?T ?T"
    proof
      assume "in_invisible_subtree ?T ?T"
      then obtain n where n: "n \<in> set (subnodes ?T)" "visible n = Some False"
          "?T \<in> set (subnodes n)"
        unfolding in_invisible_subtree_def list_ex_iff by blast
      with False have "n \<noteq> ?T" by auto
      with n(1) obtain ch where ch: "ch \<in> set cs" "n \<in> set (subnodes ch)" by auto
      from subnodes_trans [OF ch(2) n(3)] ch(1)
      have "?T \<in> set (concat (map subnodes cs))" by auto
      then have "node_id ?T \<in> node_id ` set (concat (map subnodes cs))"
        by (rule imageI)
      with fresh show False by simp
    qed
    have below: "in_invisible_subtree ?T m = in_invisible_subtree ch m"
      if ch: "ch \<in> set cs" and m: "m \<in> set (subnodes ch)" for ch m
    proof
      assume "in_invisible_subtree ch m"
      then obtain n where "n \<in> set (subnodes ch)" "visible n = Some False" "m \<in> set (subnodes n)"
        unfolding in_invisible_subtree_def list_ex_iff by blast
      with ch show "in_invisible_subtree ?T m"
        by (auto simp: in_invisible_subtree_def list_ex_iff)
    next
      assume "in_invisible_subtree ?T m"
      then obtain n where n: "n \<in> set (subnodes ?T)" "visible n = Some False"
          "m \<in> set (subnodes n)"
        unfolding in_invisible_subtree_def list_ex_iff by blast
      with False have "n \<noteq> ?T" by auto
      with n(1) obtain ch' where ch': "ch' \<in> set cs" "n \<in> set (subnodes ch')" by auto
      from subnodes_trans [OF ch'(2) n(3)] have "m \<in> set (subnodes ch')" .
      from subnodes_child_unique [OF dcs ch'(1) ch this m] have "ch' = ch" .
      with ch'(2) n(2,3) show "in_invisible_subtree ch m"
        unfolding in_invisible_subtree_def list_ex_iff by blast
    qed
    have child: "filter (\<lambda>m. \<not> in_invisible_subtree ?T m) (subnodes ch) = visible_preorder ch"
      if ch: "ch \<in> set cs" for ch
    proof -
      from dcs ch have "distinct (map node_id (subnodes ch))"
        by (auto simp: distinct_concat_iff map_concat comp_def dest: split_list)
      from SceneNode.IH [OF ch this]
      have "visible_preorder ch = filter (\<lambda>m. \<not> in_invisible_subtree ch m) (subnodes ch)" .
      also have "\<dots> = filter (\<lambda>m. \<not> in_invisible_subtree ?T m) (subnodes ch)"
        by (rule filter_cong) (simp_all add: below [OF ch])
      finally show ?thesis by simp
    qed
    have "filter (\<lambda>m. \<not> in_invisible_subtree ?T m) (concat (map subnodes cs))
          = concat (map visible_preorder cs)"
      by (simp add: filter_concat comp_def child cong: map_cong)
    with False top show ?thesis by simp
  qed
qed

text \<open>
  Claim C4.  As stated, every visible node outside the invisible subtrees is collected by
  each of the three collectors.  \<^verbatim>\<open>findTextNodes\<close> pushes a node only when its type is
  \<^verbatim>\<open>TEXT\<close> and \<^verbatim>\<open>findNodesByTypes\<close> only when its type is one of the requested ones: of a
  visible frame that holds one visible text node, \<^verbatim>\<open>findTextNodes\<close> collects the text
  node alone, and \<^verbatim>\<open>findNodesByTypes\<close> asked for \<^verbatim>\<open>TEXT\<close> likewise, although the frame is
  visible and in no invisible subtree.
\<close>

theorem collectors_filter_by_type_counterexample:
  "visible (SceneNode ''1:1'' ''Card'' ''FRAME'' (Some True) ''''
       [SceneNode ''1:2'' ''Title'' ''TEXT'' (Some True) ''Hello'' []]) = Some True
   \<and> \<not> in_invisible_subtree
       (SceneNode ''1:1'' ''Card'' ''FRAME'' (Some True) ''''
          [SceneNode ''1:2'' ''Title'' ''TEXT'' (Some True) ''Hello'' []])
       (SceneNode ''1:1'' ''Card'' ''FRAME'' (Some True) ''''
          [SceneNode ''1:2'' ''Title'' ''TEXT'' (Some True) ''Hello'' []])
   \<and> map text_id (findTextNodes
       (SceneNode ''1:1'' ''Card'' ''FRAME'' (Some True) ''''
          [SceneNode ''1:2'' ''Title'' ''TEXT'' (Some True) ''Hello'' []]) [] 0 []) = [''1:2'']
   \<and> map match_id (findNodesByTypes
       (SceneNode ''1:1'' ''Card'' ''FRAME'' (Some True) ''''
          [SceneNode ''1:2'' ''Title'' ''TEXT'' (Some True) ''Hello'' []]) [''TEXT''] []) = [''1:2'']
   \<and> map (\<lambda>d. node_id (info_node d)) (collectNodesToProcess
       (SceneNode ''1:1'' ''Card'' ''FRAME'' (Some True) ''''
          [SceneNode ''1:2'' ''Title'' ''TEXT'' (Some True) ''Hello'' []]) [] 0 [])
       = [''1:1'', ''1:2'']"
  by (simp add: in_invisible_subtree_def safeTextNode_def name_or_unnamed_def)

text \<open>
  Claim C4, amended.  In a tree whose node ids are distinct, no collector produces a
  descriptor for a node whose \<^verbatim>\<open>visible\<close> flag is \<^verbatim>\<open>false\<close> or for any node of its
  subtree, whatever the flags inside the subtree.  Of the other nodes,
  \<^verbatim>\<open>collectNodesToProcess\<close> collects every one, \<^verbatim>\<open>findTextNodes\<close> those of type
  \<^verbatim>\<open>TEXT\<close> and \<^verbatim>\<open>findNodesByTypes\<close> those of a requested type, each in depth-first
  pre-order.
\<close>

theorem tree_collection_prunes_invisible_subtrees:
  assumes "distinct (map node_id (subnodes start))"
  shows "map info_node (collectNodesToProcess start [] 0 [])
           = filter (\<lambda>m. \<not> in_invisible_subtree start m) (subnodes start)
   \<and> map text_id (findTextNodes start [] 0 [])
           = map node_id (filter (\<lambda>m. \<not> in_invisible_subtree start m \<and> node_type m = ''TEXT'')
                            (subnodes start))
   \<and> map match_id (findNodesByTypes start types [])
           = map node_id (filter (\<lambda>m. \<not> in_invisible_subtree start m \<and> node_type m \<in> set types)
                            (subnodes start))
   \<and> (\<forall>n m. n \<in> set (subnodes start) \<and> visible n = Some False \<and> m \<in> set (subnodes n) \<longrightarrow>
          m \<notin> info_node ` set (collectNodesToProcess start [] 0 [])
          \<and> node_id m \<notin> text_id ` set (findTextNodes start [] 0 [])
          \<and> node_id m \<notin> match_id ` set (findNodesByTypes start types []))"
proof -
  let ?keep = "\<lambda>m. \<not> in_invisible_subtree start m"
  note vp = visible_preorder_filter [OF assms]
  have c: "map info_node (collectNodesToProcess start [] 0 []) = filter ?keep (subnodes start)"
    using collectNodesToProcess_appends [of start "[]" 0 "[]"] vp by simp
  have t: "map text_id (findTextNodes start [] 0 [])
      = map node_id (filter (\<lambda>m. ?keep m \<and> node_type m = ''TEXT'') (subnodes start))"
    using findTextNodes_appends [of start "[]" 0 "[]"] vp by (simp add: conj_commute)
  have y: "map match_id (findNodesByTypes start types [])
      = map node_id (filter (\<lambda>m. ?keep m \<and> node_type m \<in> set types) (subnodes start))"
    using findNodesByTypes_appends [of start types "[]"] vp by (simp add: conj_commute)
  from assms have inj: "inj_on node_id (set (subnodes start))"
    by (simp add: distinct_map)
  have pruned: "m \<notin> info_node ` set (collectNodesToProcess start [] 0 [])
          \<and> node_id m \<notin> text_id ` set (findTextNodes start [] 0 [])
          \<and> node_id m \<notin> match_id ` set (findNodesByTypes start types [])"
    if n: "n \<in> set (subnodes start)" "visible n = Some False" "m \<in> set (subnodes n)" for n m
  proof -
    from n have inv: "in_invisible_subtree start m"
      unfolding in_invisible_subtree_def list_ex_iff by blast
    from subnodes_trans [OF n(1) n(3)] have m: "m \<in> set (subnodes start)" .
    have no_id: "node_id m \<notin> node_id ` {k \<in> set (subnodes start). ?keep k \<and> Q k}" for Q
    proof
      assume "node_id m \<in> node_id ` {k \<in> set (subnodes start). ?keep k \<and> Q k}"
      then obtain k where k: "k \<in> set (subnodes start)" "?keep k" "node_id k = node_id m"
        by auto
      from inj k(1) m k(3) have "k = m" by (auto dest: inj_onD)
      with k(2) inv show False by simp
    qed
    have "m \<notin> set (map info_node (collectNodesToProcess start [] 0 []))"
      unfolding c using inv by simp
    moreover have "node_id m \<notin> set (map text_id (findTextNodes start [] 0 []))"
      unfolding t using no_id [of "\<lambda>k. node_type k = ''TEXT''"] by simp
    moreover have "node_id m \<notin> set (map match_id (findNodesByTypes start types []))"
      unfolding y using no_id [of "\<lambda>k. node_type k \<in> set types"] by simp
    ultimately show ?thesis by simp
  qed
  from c t y pruned show ?thesis by blast
qed

theorem tree_collection_prunes_invisible_subtrees_witness:
  "distinct (map node_id (subnodes
     (SceneNode ''0:1'' ''Page'' ''PAGE'' None ''''
        [SceneNode ''1:1'' ''Title'' ''TEXT'' (Some True) ''Hello'' [],
         SceneNode ''1:2'' ''Hidden'' ''FRAME'' (Some False) ''''
           [SceneNode ''1:3'' ''Inner'' ''TEXT'' (Some True) ''Secret'' []],
         SceneNode ''1:4'' '''' ''GROUP'' (Some True) ''''
           [SceneNode ''1:5'' ''Body'' ''TEXT'' (Some True) ''World'' [],
            SceneNode ''1:6'' ''Off'' ''TEXT'' (Some False) ''Gone'' []]])))
   \<and> map (\<lambda>d. node_id (info_node d)) (collectNodesToProcess
     (SceneNode ''0:1'' ''Page'' ''PAGE'' None ''''
        [SceneNode ''1:1'' ''Title'' ''TEXT'' (Some True) ''Hello'' [],
         SceneNode ''1:2'' ''Hidden'' ''FRAME'' (Some False) ''''
           [SceneNode ''1:3'' ''Inner'' ''TEXT'' (Some True) ''Secret'' []],
         SceneNode ''1:4'' '''' ''GROUP'' (Some True) ''''
           [SceneNode ''1:5'' ''Body'' ''TEXT'' (Some True) ''World'' [],
            SceneNode ''1:6'' ''Off'' ''TEXT'' (Some False) ''Gone'' []]]) [] 0 [])
     = [''0:1'', ''1:1'', ''1:4'', ''1:5'']
   \<and> map text_id (findTextNodes
     (SceneNode ''0:1'' ''Page'' ''PAGE'' None ''''
        [SceneNode ''1:1'' ''Title'' ''TEXT'' (Some True) ''Hello'' [],
         SceneNode ''1:2'' ''Hidden'' ''FRAME'' (Some False) ''''
           [SceneNode ''1:3'' ''Inner'' ''TEXT'' (Some True) ''Secret'' []],
         SceneNode ''1:4'' '''' ''GROUP'' (Some True) ''''
           [SceneNode ''1:5'' ''Body'' ''TEXT'' (Some True) ''World'' [],
            SceneNode ''1:6'' ''Off'' ''TEXT'' (Some False) ''Gone'' []]]) [] 0 [])
     = [''1:1'', ''1:5'']
   \<and> map match_id (findNodesByTypes
     (SceneNode ''0:1'' ''Page'' ''PAGE'' None ''''
        [SceneNode ''1:1'' ''Title'' ''TEXT'' (Some True) ''Hello'' [],
         SceneNode ''1:2'' ''Hidden'' ''FRAME'' (Some False) ''''
           [SceneNode ''1:3'' ''Inner'' ''TEXT'' (Some True) ''Secret'' []],
         SceneNode ''1:4'' '''' ''GROUP'' (Some True) ''''
           [SceneNode ''1:5'' ''Body'' ''TEXT'' (Some True) ''World'' [],
            SceneNode ''1:6'' ''Off'' ''TEXT'' (Some False) ''Gone'' []]]) [''FRAME'', ''GROUP''] [])
     = [''1:4'']"
  using tree_collection_prunes_invisible_subtrees [of
     "SceneNode ''0:1'' ''Page'' ''PAGE'' None ''''
        [SceneNode ''1:1'' ''Title'' ''TEXT'' (Some True) ''Hello'' [],
         SceneNode ''1:2'' ''Hidden'' ''FRAME'' (Some False) ''''
           [SceneNode ''1:3'' ''Inner'' ''TEXT'' (Some True) ''Secret'' []],
         SceneNode ''1:4'' '''' ''GROUP'' (Some True) ''''
           [SceneNode ''1:5'' ''Body'' ''TEXT'' (Some True) ''World'' [],
            SceneNode ''1:6'' ''Off'' ''TEXT'' (Some False) ''Gone'' []]]"
     "[''FRAME'', ''GROUP'']"]
  by (simp add: safeTextNode_def name_or_unnamed_def)

section \<open>Chunking: results\<close>

declare chunks_of.simps [simp del]
declare split_chunks.simps [simp del]
declare process_chunks.simps [simp del]

lemma chunks_of_Nil [simp]: "chunks_of chunkSize [] = []"
  by (subst chunks_of.simps) simp

lemma chunks_of_step:
  "0 < chunkSize \<Longrightarrow> xs \<noteq> [] \<Longrightarrow>
   chunks_of chunkSize xs = take chunkSize xs # chunks_of chunkSize (drop chunkSize xs)"
  by (subst chunks_of.simps) simp

lemma chunks_of_concat:
  "0 < chunkSize \<Longrightarrow> concat (chunks_of chunkSize xs) = xs"
proof (induction "length xs" arbitrary: xs rule: less_induct)
  case less
  show ?case
  proof (cases "xs = []")
    case True
    then show ?thesis by simp
  next
    case False
    with less.prems have "length (drop chunkSize xs) < length xs" by simp
    from less.hyps [OF this less.prems] False less.prems show ?thesis
      by (simp add: chunks_of_step)
  qed
qed

lemma ceil_div_step:
  assumes "0 < chunkSize" and "0 < (n::nat)"
  shows "(n + chunkSize - 1) div chunkSize = Suc ((n - chunkSize + chunkSize - 1) div chunkSize)"
proof (cases "chunkSize \<le> n")
  case True
  with assms have "n + chunkSize - 1 = (n - 1) + chunkSize" and "n - chunkSize + chunkSize - 1 = n - 1"
    by simp_all
  with assms(1) show ?thesis by (simp only: div_add_self2)
next
  case False
  with assms have a: "n - chunkSize + chunkSize - 1 < chunkSize" by simp
  from False assms have b: "(n + chunkSize - 1) div chunkSize = 1"
    by (intro div_nat_eqI) simp_all
  from a b show ?thesis by simp
qed

lemma chunks_of_length:
  "0 < chunkSize \<Longrightarrow>
   length (chunks_of chunkSize xs) = (length xs + chunkSize - 1) div chunkSize"
proof (induction "length xs" arbitrary: xs rule: less_induct)
  case less
  show ?case
  proof (cases "xs = []")
    case True
    with less.prems show ?thesis by simp
  next
    case False
    with less.prems have shorter: "length (drop chunkSize xs) < length xs" by simp
    have "length (chunks_of chunkSize xs) = Suc (length (chunks_of chunkSize (drop chunkSize xs)))"
      by (simp only: chunks_of_step [OF less.prems False] list.size(4) Suc_eq_plus1)
    also have "\<dots> = Suc ((length xs - chunkSize + chunkSize - 1) div chunkSize)"
      by (simp only: less.hyps [OF shorter less.prems] length_drop)
    also have "\<dots> = (length xs + chunkSize - 1) div chunkSize"
      using ceil_div_step [OF less.prems, of "length xs"] False by simp
    finally show ?thesis .
  qed
qed

lemma chunks_of_nth:
  "0 < chunkSize \<Longrightarrow> k < length (chunks_of chunkSize xs) \<Longrightarrow>
   chunks_of chunkSize xs ! k = take chunkSize (drop (k * chunkSize) xs)"
proof (induction k arbitrary: xs)
  case 0
  then have "xs \<noteq> []" by auto
  with 0 show ?case by (simp add: chunks_of_step)
next
  case (Suc k)
  then have ne: "xs \<noteq> []" by auto
  with Suc.prems have "k < length (chunks_of chunkSize (drop chunkSize xs))"
    by (simp add: chunks_of_step)
  from Suc.IH [OF Suc.prems(1) this] ne Suc.prems(1) show ?case
    by (simp add: chunks_of_step add.commute)
qed

lemma chunks_of_empty_iff:
  "0 < chunkSize \<Longrightarrow> chunks_of chunkSize xs = [] \<longleftrightarrow> xs = []"
  by (cases "xs = []") (simp_all add: chunks_of_step)

lemma chunks_of_sizes:
  "0 < chunkSize \<Longrightarrow> k < length (chunks_of chunkSize xs) \<Longrightarrow>
   0 < length (chunks_of chunkSize xs ! k) \<and> length (chunks_of chunkSize xs ! k) \<le> chunkSize
   \<and> (Suc k < length (chunks_of chunkSize xs) \<longrightarrow> length (chunks_of chunkSize xs ! k) = chunkSize)"
proof (induction k arbitrary: xs)
  case 0
  then have ne: "xs \<noteq> []" by auto
  have "length (take chunkSize xs) = chunkSize"
    if "Suc 0 < length (chunks_of chunkSize xs)"
  proof -
    from that ne 0(1) have "chunks_of chunkSize (drop chunkSize xs) \<noteq> []"
      by (auto simp: chunks_of_step)
    with 0(1) have "drop chunkSize xs \<noteq> []"
      by (simp add: chunks_of_empty_iff)
    then show ?thesis by simp
  qed
  with ne 0(1) show ?case by (simp add: chunks_of_step)
next
  case (Suc k)
  then have ne: "xs \<noteq> []" by auto
  with Suc.prems have "k < length (chunks_of chunkSize (drop chunkSize xs))"
    by (simp add: chunks_of_step)
  from Suc.IH [OF Suc.prems(1) this] ne Suc.prems(1) show ?case
    by (simp add: chunks_of_step)
qed

lemma Math_ceil_div:
  assumes "0 < chunkSize"
  shows "nat (Math_ceil (of_nat n / of_nat chunkSize)) = (n + chunkSize - 1) div chunkSize"
proof -
  let ?q = "(n + chunkSize - 1) div chunkSize"
  have "?q * chunkSize + (n + chunkSize - 1) mod chunkSize = n + chunkSize - 1"
    by (rule div_mult_mod_eq)
  moreover from assms have "(n + chunkSize - 1) mod chunkSize < chunkSize"
    by simp
  ultimately have upper: "n \<le> ?q * chunkSize" and lower: "?q * chunkSize < n + chunkSize"
    using assms by linarith+
  from assms have pos: "(0::rat) < of_nat chunkSize" by simp
  have "(of_nat n :: rat) \<le> of_nat (?q * chunkSize)"
    using upper by (simp only: of_nat_le_iff)
  then have le: "(of_nat n :: rat) / of_nat chunkSize \<le> of_int (int ?q)"
    using pos by (simp add: pos_divide_le_eq)
  have "(of_nat (?q * chunkSize) :: rat) < of_nat (n + chunkSize)"
    using lower by (simp only: of_nat_less_iff)
  then have "(of_nat ?q - 1) * (of_nat chunkSize :: rat) < of_nat n"
    by (simp add: algebra_simps)
  then have gt: "of_int (int ?q) - 1 < (of_nat n :: rat) / of_nat chunkSize"
    using pos by (simp add: pos_less_divide_eq)
  from gt le have "\<lceil>(of_nat n :: rat) / of_nat chunkSize\<rceil> = int ?q"
    by (rule ceiling_unique)
  then show ?thesis by (simp add: Math_ceil_def)
qed

lemma Math_round_linear:
  fixes r :: rat
  shows "r \<le> r' \<Longrightarrow> Math_round (5 + r * 90) \<le> Math_round (5 + r' * 90)"
    and "0 \<le> r \<Longrightarrow> 5 \<le> Math_round (5 + r * 90)"
    and "r \<le> 1 \<Longrightarrow> Math_round (5 + r * 90) \<le> 95"
    and "r = 0 \<Longrightarrow> Math_round (5 + r * 90) = 5"
    and "r = 1 \<Longrightarrow> Math_round (5 + r * 90) = 95"
proof -
  show "Math_round (5 + r * 90) \<le> Math_round (5 + r' * 90)" if "r \<le> r'"
    unfolding Math_round_def using that by (intro floor_mono) linarith
  show "5 \<le> Math_round (5 + r * 90)" if "0 \<le> r"
    unfolding Math_round_def le_floor_iff using that by simp
  show "Math_round (5 + r * 90) \<le> 95" if "r \<le> 1"
    unfolding Math_round_def floor_le_iff using that by simp
  show "Math_round (5 + r * 90) = 5" if "r = 0"
    unfolding Math_round_def using that by (intro floor_unique) simp_all
  show "Math_round (5 + r * 90) = 95" if "r = 1"
    unfolding Math_round_def using that by (intro floor_unique) simp_all
qed


lemma chunk_progress_mono:
  assumes "j \<le> k"
  shows "chunk_progress j n \<le> chunk_progress k n"
proof -
  from assms have "(of_nat j :: rat) / of_nat n \<le> of_nat k / of_nat n"
    by (simp add: divide_right_mono)
  from Math_round_linear(1) [OF this] show ?thesis
    unfolding chunk_progress_def by linarith
qed

lemma chunk_progress_start: "chunk_progress 0 n = 5"
proof -
  have "(of_nat 0 :: rat) / of_nat n = 0" by simp
  from Math_round_linear(4) [OF this] show ?thesis
    unfolding chunk_progress_def by simp
qed

lemma chunk_progress_end: "0 < n \<Longrightarrow> chunk_progress n n = 95"
proof -
  assume "0 < n"
  then have "(of_nat n :: rat) / of_nat n = 1" by simp
  from Math_round_linear(5) [OF this] show ?thesis
    unfolding chunk_progress_def by simp
qed

lemma slice_is_take:
  "slice xs i (i + chunkSize) = take chunkSize (drop i xs)"
  "slice xs i (min (i + chunkSize) (length xs)) = take chunkSize (drop i xs)"
  by (simp_all add: slice_def min_def)

lemma split_chunks_eq:
  "split_chunks items i acc = acc @ chunks_of CHUNK_SIZE (drop i items)"
proof (induction items i acc rule: split_chunks.induct)
  case (1 items i chunks)
  show ?case
  proof (cases "i < length items")
    case False
    then show ?thesis by (subst split_chunks.simps) simp
  next
    case True
    then have ne: "drop i items \<noteq> []" by simp
    have pos: "0 < CHUNK_SIZE" by (simp add: CHUNK_SIZE_def)
    have "split_chunks items i chunks
            = split_chunks items (i + CHUNK_SIZE) (chunks @ [slice items i (i + CHUNK_SIZE)])"
      using True by (subst split_chunks.simps) simp
    also have "\<dots> = (chunks @ [slice items i (i + CHUNK_SIZE)])
                      @ chunks_of CHUNK_SIZE (drop (i + CHUNK_SIZE) items)"
      by (rule 1 [OF True])
    also have "\<dots> = chunks @ chunks_of CHUNK_SIZE (drop i items)"
      by (simp add: chunks_of_step [OF pos ne] slice_is_take(1) [of items i CHUNK_SIZE]
          add.commute [of CHUNK_SIZE i])
    finally show ?thesis .
  qed
qed

lemma progress_pairs_sorted:
  assumes mono: "\<And>i j. i \<le> j \<Longrightarrow> f i \<le> (f j :: nat)"
  shows "sorted (concat (map (\<lambda>j. [f j, f (Suc j)]) [k ..< k + m]))
         \<and> (\<forall>x \<in> set (concat (map (\<lambda>j. [f j, f (Suc j)]) [k ..< k + m])). f k \<le> x \<and> x \<le> f (k + m))"
proof (induction m)
  case 0
  show ?case by simp
next
  case (Suc m)
  have split: "[k ..< k + Suc m] = [k ..< k + m] @ [k + m]" by simp
  have "f (k + m) \<le> f (Suc (k + m))" "f k \<le> f (k + m)" "f k \<le> f (Suc (k + m))"
    by (simp_all add: mono)
  with Suc show ?case
    unfolding split by (auto simp: sorted_append intro: order_trans)
qed

section \<open>The batch engine: results\<close>

lemma count_results_fields:
  "results (count_results ok rs b) = results b @ rs"
  "successCount (count_results ok rs b) = successCount b + length (filter ok rs)"
  "failureCount (count_results ok rs b) = failureCount b + length (filter (\<lambda>r. \<not> ok r) rs)"
  "events (count_results ok rs b) = events b"
  "doc (count_results ok rs b) = doc b"
  by (induction rs arbitrary: b) simp_all

lemma process_chunk_fields:
  "results (process_chunk cmdId cmdType ok pc itemCount chunks k b)
     = results b @ fst (pc (doc b) (chunks ! k))"
  "successCount (process_chunk cmdId cmdType ok pc itemCount chunks k b)
     = successCount b + length (filter ok (fst (pc (doc b) (chunks ! k))))"
  "failureCount (process_chunk cmdId cmdType ok pc itemCount chunks k b)
     = failureCount b + length (filter (\<lambda>r. \<not> ok r) (fst (pc (doc b) (chunks ! k))))"
  "map progress (events (process_chunk cmdId cmdType ok pc itemCount chunks k b))
     = map progress (events b)
       @ [chunk_progress k (length chunks), chunk_progress (Suc k) (length chunks)]"
  "map status (events (process_chunk cmdId cmdType ok pc itemCount chunks k b))
     = map status (events b) @ [InProgress, InProgress]"
  by (simp_all add: process_chunk_def Let_def count_results_fields sendProgressUpdate_def)

lemma process_chunks_counted:
  "counted ok b \<Longrightarrow> counted ok (process_chunks cmdId cmdType ok pc itemCount chunks k b)"
proof (induction cmdId cmdType ok pc itemCount chunks k b rule: process_chunks.induct)
  case (1 cmdId cmdType ok pc itemCount chunks k b)
  show ?case
  proof (cases "k < length chunks")
    case False
    with 1(2) show ?thesis by (subst process_chunks.simps) simp
  next
    case True
    from 1(2) have "counted ok (process_chunk cmdId cmdType ok pc itemCount chunks k b)"
      by (simp add: counted_def process_chunk_fields)
    from 1(1) [OF True this] True show ?thesis
      by (subst process_chunks.simps) simp
  qed
qed

lemma process_chunks_keys:
  assumes keys: "\<And>d c. map key (fst (pc d c)) = map g c"
  shows "map key (results (process_chunks cmdId cmdType ok pc itemCount chunks k b))
           = map key (results b) @ map g (concat (drop k chunks))"
proof (induction "length chunks - k" arbitrary: k b rule: less_induct)
  case less
  show ?case
  proof (cases "k < length chunks")
    case False
    then show ?thesis by (subst process_chunks.simps) simp
  next
    case True
    then have "drop k chunks = chunks ! k # drop (Suc k) chunks"
      by (simp add: Cons_nth_drop_Suc)
    moreover from True have "length chunks - Suc k < length chunks - k" by simp
    note less.hyps [OF this, of "process_chunk cmdId cmdType ok pc itemCount chunks k b"]
    ultimately show ?thesis
      using True by (subst process_chunks.simps) (simp add: process_chunk_fields keys)
  qed
qed

lemma process_chunks_events:
  "map progress (events (process_chunks cmdId cmdType ok pc itemCount chunks k b))
     = map progress (events b)
       @ concat (map (\<lambda>j. [chunk_progress j (length chunks), chunk_progress (Suc j) (length chunks)])
                   [k ..< length chunks])
   \<and> map status (events (process_chunks cmdId cmdType ok pc itemCount chunks k b))
     = map status (events b) @ replicate (2 * (length chunks - k)) InProgress"
proof (induction cmdId cmdType ok pc itemCount chunks k b rule: process_chunks.induct)
  case (1 cmdId cmdType ok pc itemCount chunks k b)
  show ?case
  proof (cases "k < length chunks")
    case False
    then show ?thesis by (subst (1 2) process_chunks.simps) simp
  next
    case True
    then have upt: "[k ..< length chunks] = k # [Suc k ..< length chunks]"
      by (simp add: upt_conv_Cons)
    from True have rep: "replicate (2 * (length chunks - k)) InProgress
        = [InProgress, InProgress] @ replicate (2 * (length chunks - Suc k)) InProgress"
      by (cases "length chunks - k") (simp_all add: Suc_diff_Suc)
    from 1 [OF True] True show ?thesis
      by (subst (1 2) process_chunks.simps) (simp add: process_chunk_fields upt rep)
  qed
qed

lemma scan_chunk_fields:
  "scan_slices (scan_chunk cmdId chunkSize chunkCount nodes i s)
     = scan_slices s @ [take chunkSize (drop i nodes)]"
  "chunksProcessed (scan_chunk cmdId chunkSize chunkCount nodes i s) = Suc (chunksProcessed s)"
  "processedNodes (scan_chunk cmdId chunkSize chunkCount nodes i s)
     = processedNodes s + length (take chunkSize (drop i nodes))"
  "allTextNodes (scan_chunk cmdId chunkSize chunkCount nodes i s)
     = allTextNodes s @ processChunkNodes (take chunkSize (drop i nodes))"
  "map progress (scan_events (scan_chunk cmdId chunkSize chunkCount nodes i s))
     = map progress (scan_events s)
       @ [chunk_progress (chunksProcessed s) chunkCount,
          chunk_progress (Suc (chunksProcessed s)) chunkCount]"
  "map status (scan_events (scan_chunk cmdId chunkSize chunkCount nodes i s))
     = map status (scan_events s) @ [InProgress, InProgress]"
  by (simp_all add: scan_chunk_def Let_def slice_is_take sendProgressUpdate_def)

lemma processChunkNodes_append:
  "processChunkNodes (xs @ ys) = processChunkNodes xs @ processChunkNodes ys"
  by (simp add: processChunkNodes_def)

lemma scan_loop_returns:
  assumes pos: "0 < chunkSize"
  shows "\<exists>s'. scan_loop cmdId chunkSize chunkCount nodes i s = Some s'
     \<and> scan_slices s' = scan_slices s @ chunks_of chunkSize (drop i nodes)
     \<and> chunksProcessed s' = chunksProcessed s + length (chunks_of chunkSize (drop i nodes))
     \<and> processedNodes s' = processedNodes s + length (drop i nodes)
     \<and> allTextNodes s' = allTextNodes s @ processChunkNodes (drop i nodes)
     \<and> map progress (scan_events s')
         = map progress (scan_events s)
           @ concat (map (\<lambda>j. [chunk_progress j chunkCount, chunk_progress (Suc j) chunkCount])
               [chunksProcessed s ..<
                  chunksProcessed s + length (chunks_of chunkSize (drop i nodes))])
     \<and> map status (scan_events s')
         = map status (scan_events s)
           @ replicate (2 * length (chunks_of chunkSize (drop i nodes))) InProgress"
proof (induction "length nodes - i" arbitrary: i s rule: less_induct)
  case less
  show ?case
  proof (cases "i < length nodes")
    case False
    then have "scan_loop cmdId chunkSize chunkCount nodes i s = Some s"
      by (subst scan_loop.simps) simp
    with False show ?thesis by (simp add: processChunkNodes_def)
  next
    case True
    let ?s1 = "scan_chunk cmdId chunkSize chunkCount nodes i s"
    let ?rest = "chunks_of chunkSize (drop (i + chunkSize) nodes)"
    from True have ne: "drop i nodes \<noteq> []" by simp
    have step: "chunks_of chunkSize (drop i nodes) = take chunkSize (drop i nodes) # ?rest"
      by (simp add: chunks_of_step [OF pos ne] add.commute [of chunkSize i])
    from True pos have "length nodes - (i + chunkSize) < length nodes - i" by simp
    from less.hyps [OF this, of ?s1]
    obtain s' where s':
      "scan_loop cmdId chunkSize chunkCount nodes (i + chunkSize) ?s1 = Some s'"
      "scan_slices s' = scan_slices ?s1 @ ?rest"
      "chunksProcessed s' = chunksProcessed ?s1 + length ?rest"
      "processedNodes s' = processedNodes ?s1 + length (drop (i + chunkSize) nodes)"
      "allTextNodes s' = allTextNodes ?s1 @ processChunkNodes (drop (i + chunkSize) nodes)"
      "map progress (scan_events s')
         = map progress (scan_events ?s1)
           @ concat (map (\<lambda>j. [chunk_progress j chunkCount, chunk_progress (Suc j) chunkCount])
               [chunksProcessed ?s1 ..< chunksProcessed ?s1 + length ?rest])"
      "map status (scan_events s')
         = map status (scan_events ?s1) @ replicate (2 * length ?rest) InProgress"
      by blast
    have loop: "scan_loop cmdId chunkSize chunkCount nodes i s = Some s'"
      using True s'(1) by (subst scan_loop.simps) simp
    have parts: "take chunkSize (drop i nodes) @ drop (i + chunkSize) nodes = drop i nodes"
      by (metis add.commute append_take_drop_id drop_drop)
    have nodes_done: "processedNodes s' = processedNodes s + length (drop i nodes)"
      using s'(4) arg_cong [OF parts, of length] by (simp add: scan_chunk_fields)
    have texts: "allTextNodes s' = allTextNodes s @ processChunkNodes (drop i nodes)"
      using s'(5) arg_cong [OF parts, of processChunkNodes]
      by (simp add: scan_chunk_fields processChunkNodes_append)
    have upt: "[chunksProcessed s ..< Suc (chunksProcessed s + length ?rest)]
        = chunksProcessed s # [Suc (chunksProcessed s) ..< Suc (chunksProcessed s + length ?rest)]"
      by (subst upt_rec) simp
    have "scan_slices s' = scan_slices s @ chunks_of chunkSize (drop i nodes)"
      using s'(2) by (simp add: scan_chunk_fields step)
    moreover have "chunksProcessed s'
        = chunksProcessed s + length (chunks_of chunkSize (drop i nodes))"
      using s'(3) by (simp add: scan_chunk_fields step)
    moreover have "map progress (scan_events s')
         = map progress (scan_events s)
           @ concat (map (\<lambda>j. [chunk_progress j chunkCount, chunk_progress (Suc j) chunkCount])
               [chunksProcessed s ..<
                  chunksProcessed s + length (chunks_of chunkSize (drop i nodes))])"
      using s'(6) by (simp add: scan_chunk_fields step upt del: upt_Suc)
    moreover have "map status (scan_events s')
         = map status (scan_events s)
           @ replicate (2 * length (chunks_of chunkSize (drop i nodes))) InProgress"
      using s'(7) by (simp add: scan_chunk_fields step)
    ultimately show ?thesis
      using loop nodes_done texts by blast
  qed
qed

lemma process_chunks_all:
  assumes each: "\<And>d c. \<forall>r \<in> set (fst (pc d c)). Q r"
  shows "(\<forall>r \<in> set (results b). Q r) \<Longrightarrow>
         \<forall>r \<in> set (results (process_chunks cmdId cmdType ok pc itemCount chunks k b)). Q r"
proof (induction "length chunks - k" arbitrary: k b rule: less_induct)
  case less
  show ?case
  proof (cases "k < length chunks")
    case False
    with less.prems show ?thesis by (subst process_chunks.simps) simp
  next
    case True
    then have "length chunks - Suc k < length chunks - k" by simp
    moreover have "\<forall>r \<in> set (results (process_chunk cmdId cmdType ok pc itemCount chunks k b)). Q r"
      using less.prems each by (auto simp: process_chunk_fields)
    ultimately have
      "\<forall>r \<in> set (results (process_chunks cmdId cmdType ok pc itemCount chunks (Suc k)
          (process_chunk cmdId cmdType ok pc itemCount chunks k b))). Q r"
      by (rule less.hyps)
    with True show ?thesis by (subst process_chunks.simps) simp
  qed
qed

lemma deleteResumed_keys:
  "map del_nodeId (fst (deleteResumed h d lookups)) = map fst lookups"
proof (induction h d lookups rule: deleteResumed.induct)
  case (4 h d nodeId node rest)
  then show ?case by (cases "remove h d node") (auto split: prod.splits)
qed (auto split: prod.splits)

lemma deleteResumed_errors:
  "\<forall>r \<in> set (fst (deleteResumed h d lookups)). del_success r \<longleftrightarrow> del_error r = None"
proof (induction h d lookups rule: deleteResumed.induct)
  case (4 h d nodeId node rest)
  then show ?case by (cases "remove h d node") (auto split: prod.splits)
qed (auto split: prod.splits)


lemma deleteChunk_keys: "map del_nodeId (fst (deleteChunk h d chunk)) = map (\<lambda>nodeId. nodeId) chunk"
  by (simp add: deleteChunk_def deleteResumed_keys comp_def)

lemma deleteChunk_errors:
  "\<forall>r \<in> set (fst (deleteChunk h d chunk)). del_success r \<longleftrightarrow> del_error r = None"
  by (simp add: deleteChunk_def deleteResumed_errors)


lemma replaceOne_key: "rep_nodeId (fst (replaceOne h d r)) = replacement_key r"
  by (simp add: replaceOne_def replacement_key_def Let_def split: sum.splits option.splits)

lemma replaceOne_error:
  "rep_success (fst (replaceOne h d r)) \<longleftrightarrow> rep_error (fst (replaceOne h d r)) = None"
  by (simp add: replaceOne_def Let_def split: sum.splits option.splits)

lemma replaceChunk_keys:
  "map rep_nodeId (fst (replaceChunk h d chunk)) = map replacement_key chunk"
proof (induction chunk arbitrary: d)
  case Nil
  show ?case by simp
next
  case (Cons r chunk)
  obtain x d1 where one: "replaceOne h d r = (x, d1)" by (cases "replaceOne h d r")
  with replaceOne_key [of h d r] have "rep_nodeId x = replacement_key r" by simp
  with Cons [of d1] one show ?case by (auto split: prod.splits)
qed

lemma replaceChunk_errors:
  "\<forall>r \<in> set (fst (replaceChunk h d chunk)). rep_success r \<longleftrightarrow> rep_error r = None"
proof (induction chunk arbitrary: d)
  case Nil
  show ?case by simp
next
  case (Cons r chunk)
  obtain x d1 where one: "replaceOne h d r = (x, d1)" by (cases "replaceOne h d r")
  with replaceOne_error [of h d r] have "rep_success x \<longleftrightarrow> rep_error x = None" by simp
  with Cons [of d1] one show ?case by (auto split: prod.splits)
qed

section \<open>The batch commands: results\<close>

lemma split_chunks_concat: "concat (split_chunks items 0 []) = items"
  by (simp add: split_chunks_eq chunks_of_concat CHUNK_SIZE_def)

lemma batch_results:
  assumes keys: "\<And>d c. map key (fst (pc d c)) = map g c"
  shows "map key (results (process_chunks cmdId cmdType ok pc n (split_chunks items 0 []) 0
            \<lparr>doc = d, results = [], successCount = 0, failureCount = 0, events = evs\<rparr>))
         = map g items"
  using process_chunks_keys [of key pc g cmdId cmdType ok n "split_chunks items 0 []" 0
      "\<lparr>doc = d, results = [], successCount = 0, failureCount = 0, events = evs\<rparr>", OF keys]
  by (simp add: split_chunks_concat)

lemma batch_counts:
  assumes keys: "\<And>d c. map key (fst (pc d c)) = map g c"
    and b_def: "b = process_chunks cmdId cmdType ok pc n (split_chunks items 0 []) 0
            \<lparr>doc = d, results = [], successCount = 0, failureCount = 0, events = evs\<rparr>"
  shows "successCount b = length (filter ok (results b))"
    and "failureCount b = length (filter (\<lambda>r. \<not> ok r) (results b))"
    and "length (results b) = length items"
    and "successCount b + failureCount b = length items"
proof -
  have "counted ok \<lparr>doc = d, results = [], successCount = 0, failureCount = 0, events = evs\<rparr>"
    by (simp add: counted_def)
  then have c: "counted ok b"
    unfolding b_def by (rule process_chunks_counted)
  then show s: "successCount b = length (filter ok (results b))"
    and f: "failureCount b = length (filter (\<lambda>r. \<not> ok r) (results b))"
    by (simp_all add: counted_def)
  from batch_results [of key pc g cmdId cmdType ok n items d evs, OF keys]
  have "length (map key (results b)) = length (map g items)"
    unfolding b_def by simp
  then show l: "length (results b) = length items" by simp
  from s f l sum_length_filter_compl [of ok "results b"]
  show "successCount b + failureCount b = length items" by simp
qed

lemma progress_contract_intro:
  assumes p: "map progress evs = 0 # 5 # P @ [100]"
    and s: "map status evs = Started # InProgress # replicate (length P) InProgress @ [Completed]"
    and sorted: "sorted P"
    and range: "\<forall>x \<in> set P. 5 \<le> x \<and> x \<le> 95"
  shows "progress_contract evs"
proof -
  from p obtain e0 e1 rest where evs: "evs = e0 # e1 # rest" "progress e0 = 0" "progress e1 = 5"
      "map progress rest = P @ [100]"
    by (cases evs; cases "tl evs") auto
  from s evs(1) have st: "status e0 = Started" "status e1 = InProgress"
      "map status rest = replicate (length P) InProgress @ [Completed]"
    by simp_all
  from evs(4) have "rest \<noteq> []" by auto
  then obtain mid lst where rest: "rest = mid @ [lst]"
    by (cases rest rule: rev_cases) auto
  from evs(4) st(3) rest have mid: "map progress mid = P" "progress lst = 100"
      "map status mid = replicate (length P) InProgress" "status lst = Completed"
    by simp_all
  have mid_ok: "status e = InProgress \<and> 5 \<le> progress e \<and> progress e \<le> 95"
    if "e \<in> set mid" for e
  proof -
    from that have "progress e \<in> set (map progress mid)" "status e \<in> set (map status mid)"
      by simp_all
    with mid(1,3) range show ?thesis by auto
  qed
  have "sorted (0 # 5 # P @ [100])"
    using sorted range by (auto simp: sorted_append)
  with p have srt: "sorted (map progress evs)" by simp
  show ?thesis
    unfolding progress_contract_def
    using evs(1,2,3) st(1,2) rest mid(2,4) mid_ok srt by auto
qed

lemma chunk_percentages:
  "sorted (concat (map (\<lambda>j. [chunk_progress j n, chunk_progress (Suc j) n]) [0 ..< n]))
   \<and> (\<forall>x \<in> set (concat (map (\<lambda>j. [chunk_progress j n, chunk_progress (Suc j) n]) [0 ..< n])).
         5 \<le> x \<and> x \<le> 95)
   \<and> length (concat (map (\<lambda>j. [chunk_progress j n, chunk_progress (Suc j) n]) [0 ..< n])) = 2 * n"
proof (cases "n = 0")
  case True
  then show ?thesis by simp
next
  case False
  then have pos: "0 < n" by simp
  from progress_pairs_sorted [of "\<lambda>j. chunk_progress j n" 0 n] chunk_progress_mono
  have "sorted (concat (map (\<lambda>j. [chunk_progress j n, chunk_progress (Suc j) n]) [0 ..< n]))"
    and "\<forall>x \<in> set (concat (map (\<lambda>j. [chunk_progress j n, chunk_progress (Suc j) n]) [0 ..< n])).
           chunk_progress 0 n \<le> x \<and> x \<le> chunk_progress n n"
    by simp_all
  moreover have "length (concat (map (\<lambda>j. [f j, g j]) xs)) = 2 * length xs"
    for f g :: "nat \<Rightarrow> nat" and xs
    by (induction xs) simp_all
  then have "length (concat (map (\<lambda>j. [chunk_progress j n, chunk_progress (Suc j) n]) [0 ..< n]))
      = 2 * n"
    by simp
  ultimately show ?thesis
    using chunk_progress_start [of n] chunk_progress_end [OF pos] by simp
qed

lemma batch_events_contract:
  assumes e0: "status e0 = Started" "progress e0 = 0"
    and e1: "status e1 = InProgress" "progress e1 = 5"
    and e2: "status e2 = Completed" "progress e2 = 100"
  shows "progress_contract
     (events (process_chunks cmdId cmdType ok pc n chunks 0
        \<lparr>doc = d, results = [], successCount = 0, failureCount = 0, events = [e0, e1]\<rparr>) @ [e2])"
proof (rule progress_contract_intro)
  let ?P = "concat (map (\<lambda>j. [chunk_progress j (length chunks), chunk_progress (Suc j) (length chunks)])
              [0 ..< length chunks])"
  let ?b = "process_chunks cmdId cmdType ok pc n chunks 0
        \<lparr>doc = d, results = [], successCount = 0, failureCount = 0, events = [e0, e1]\<rparr>"
  note ev = process_chunks_events [of cmdId cmdType ok pc n chunks 0
      "\<lparr>doc = d, results = [], successCount = 0, failureCount = 0, events = [e0, e1]\<rparr>"]
  note pc = chunk_percentages [of "length chunks"]
  from ev e0 e1 e2 show "map progress (events ?b @ [e2]) = 0 # 5 # ?P @ [100]"
    by simp
  from ev e0 e1 e2 pc show "map status (events ?b @ [e2])
      = Started # InProgress # replicate (length ?P) InProgress @ [Completed]"
    by simp
  from pc show "sorted ?P" by blast
  from pc show "\<forall>x \<in> set ?P. 5 \<le> x \<and> x \<le> 95" by blast
qed

lemma last_event_fields:
  "status (sendProgressUpdate cmdId cmdType st p n m payload) = st"
  "progress (sendProgressUpdate cmdId cmdType st p n m payload) = p"
  "totalItems (sendProgressUpdate cmdId cmdType st p n m payload) = n"
  "processedItems (sendProgressUpdate cmdId cmdType st p n m payload) = m"
  by (simp_all add: sendProgressUpdate_def Let_def split: option.splits prod.splits)

text \<open>
  Claim C1.  The chunking loop of \<^verbatim>\<open>setMultipleTextContents\<close> and \<^verbatim>\<open>deleteMultipleNodes\<close>
  (chunk size \<open>5\<close>) and the loop of \<^verbatim>\<open>scanTextNodes\<close> (any chunk size above \<open>0\<close>) cut a list of
  \<open>N\<close> items into \<open>\<lceil>N / C\<rceil>\<close> chunks; chunk \<open>k\<close> is the slice \<open>[k C, k C + C)\<close> of the list, so
  every chunk has at least one and at most \<open>C\<close> items, every chunk but the last has \<open>C\<close>, and
  the chunks concatenated in order are the list.  The scan loop always returns, and
  \<^verbatim>\<open>Math.ceil(totalNodes / chunkSize)\<close> is the number of chunks it processes.
\<close>

theorem batch_commands_partition_items:
  "length (split_chunks items 0 []) = nat (Math_ceil (of_nat (length items) / of_nat CHUNK_SIZE))
   \<and> concat (split_chunks items 0 []) = items
   \<and> (\<forall>k < length (split_chunks items 0 []).
         split_chunks items 0 [] ! k = slice items (k * CHUNK_SIZE) (k * CHUNK_SIZE + CHUNK_SIZE)
         \<and> 0 < length (split_chunks items 0 [] ! k)
         \<and> length (split_chunks items 0 [] ! k) \<le> CHUNK_SIZE
         \<and> (Suc k < length (split_chunks items 0 []) \<longrightarrow>
                length (split_chunks items 0 [] ! k) = CHUNK_SIZE))
   \<and> (0 < chunkSize \<longrightarrow>
        (\<exists>s'. scan_loop cmdId chunkSize chunkCount nodes 0
                 \<lparr>allTextNodes = [], processedNodes = 0, chunksProcessed = 0,
                  scan_events = evs, scan_slices = []\<rparr> = Some s'
           \<and> length (scan_slices s') = nat (Math_ceil (of_nat (length nodes) / of_nat chunkSize))
           \<and> chunksProcessed s' = length (scan_slices s')
           \<and> processedNodes s' = length nodes
           \<and> concat (scan_slices s') = nodes
           \<and> (\<forall>k < length (scan_slices s').
                 scan_slices s' ! k = slice nodes (k * chunkSize) (k * chunkSize + chunkSize)
                 \<and> 0 < length (scan_slices s' ! k)
                 \<and> length (scan_slices s' ! k) \<le> chunkSize
                 \<and> (Suc k < length (scan_slices s') \<longrightarrow>
                        length (scan_slices s' ! k) = chunkSize))))"
proof -
  have pos5: "0 < CHUNK_SIZE" by (simp add: CHUNK_SIZE_def)
  have parts: "length (chunks_of c xs) = nat (Math_ceil (of_nat (length xs) / of_nat c))
      \<and> concat (chunks_of c xs) = xs
      \<and> (\<forall>k < length (chunks_of c xs).
           chunks_of c xs ! k = slice xs (k * c) (k * c + c)
           \<and> 0 < length (chunks_of c xs ! k)
           \<and> length (chunks_of c xs ! k) \<le> c
           \<and> (Suc k < length (chunks_of c xs) \<longrightarrow> length (chunks_of c xs ! k) = c))"
    if "0 < c" for c and xs :: "'z list"
    using that chunks_of_sizes [OF that, of _ xs]
    by (simp add: chunks_of_length Math_ceil_div chunks_of_concat chunks_of_nth slice_is_take)
  have fixed: "split_chunks items 0 [] = chunks_of CHUNK_SIZE items"
    by (simp add: split_chunks_eq)
  have scan: "\<exists>s'. scan_loop cmdId chunkSize chunkCount nodes 0
                 \<lparr>allTextNodes = [], processedNodes = 0, chunksProcessed = 0,
                  scan_events = evs, scan_slices = []\<rparr> = Some s'
           \<and> scan_slices s' = chunks_of chunkSize nodes
           \<and> chunksProcessed s' = length (scan_slices s')
           \<and> processedNodes s' = length nodes"
    if "0 < chunkSize"
    using scan_loop_returns [OF that, of cmdId chunkCount nodes 0
        "\<lparr>allTextNodes = [], processedNodes = 0, chunksProcessed = 0,
          scan_events = evs, scan_slices = []\<rparr>"]
    by auto
  have A: "length (split_chunks items 0 [])
             = nat (Math_ceil (of_nat (length items) / of_nat CHUNK_SIZE))
   \<and> concat (split_chunks items 0 []) = items
   \<and> (\<forall>k < length (split_chunks items 0 []).
         split_chunks items 0 [] ! k = slice items (k * CHUNK_SIZE) (k * CHUNK_SIZE + CHUNK_SIZE)
         \<and> 0 < length (split_chunks items 0 [] ! k)
         \<and> length (split_chunks items 0 [] ! k) \<le> CHUNK_SIZE
         \<and> (Suc k < length (split_chunks items 0 []) \<longrightarrow>
                length (split_chunks items 0 [] ! k) = CHUNK_SIZE))"
    using parts [OF pos5, of items] unfolding fixed .
  have B: "\<exists>s'. scan_loop cmdId chunkSize chunkCount nodes 0
                 \<lparr>allTextNodes = [], processedNodes = 0, chunksProcessed = 0,
                  scan_events = evs, scan_slices = []\<rparr> = Some s'
           \<and> length (scan_slices s') = nat (Math_ceil (of_nat (length nodes) / of_nat chunkSize))
           \<and> chunksProcessed s' = length (scan_slices s')
           \<and> processedNodes s' = length nodes
           \<and> concat (scan_slices s') = nodes
           \<and> (\<forall>k < length (scan_slices s').
                 scan_slices s' ! k = slice nodes (k * chunkSize) (k * chunkSize + chunkSize)
                 \<and> 0 < length (scan_slices s' ! k)
                 \<and> length (scan_slices s' ! k) \<le> chunkSize
                 \<and> (Suc k < length (scan_slices s') \<longrightarrow>
                        length (scan_slices s' ! k) = chunkSize))"
    if c: "0 < chunkSize"
  proof -
    from scan [OF c] obtain s' where s':
      "scan_loop cmdId chunkSize chunkCount nodes 0
                 \<lparr>allTextNodes = [], processedNodes = 0, chunksProcessed = 0,
                  scan_events = evs, scan_slices = []\<rparr> = Some s'"
      "scan_slices s' = chunks_of chunkSize nodes"
      "chunksProcessed s' = length (scan_slices s')"
      "processedNodes s' = length nodes"
      by blast
    from parts [OF c, of nodes]
    have "length (scan_slices s') = nat (Math_ceil (of_nat (length nodes) / of_nat chunkSize))
           \<and> concat (scan_slices s') = nodes
           \<and> (\<forall>k < length (scan_slices s').
                 scan_slices s' ! k = slice nodes (k * chunkSize) (k * chunkSize + chunkSize)
                 \<and> 0 < length (scan_slices s' ! k)
                 \<and> length (scan_slices s' ! k) \<le> chunkSize
                 \<and> (Suc k < length (scan_slices s') \<longrightarrow>
                        length (scan_slices s' ! k) = chunkSize))"
      unfolding s'(2) .
    with s'(1,3,4) show ?thesis by blast
  qed
  from A B show ?thesis by blast
qed

theorem batch_commands_partition_items_witness:
  "(0::nat) < 10
   \<and> split_chunks [1, 2, 3, 4, 5, 6, 7, 8, 9, 10, 11 :: nat] 0 []
       = [[1, 2, 3, 4, 5], [6, 7, 8, 9, 10], [11]]
   \<and> nat (Math_ceil (of_nat (length [1, 2, 3, 4, 5, 6, 7, 8, 9, 10, 11 :: nat]) / of_nat CHUNK_SIZE)) = 3
   \<and> (\<exists>s'. scan_loop ''cmd_1'' 10 3
              (replicate 23 \<lparr>info_node = SceneNode ''1:1'' ''Title'' ''TEXT'' (Some True) ''Hello'' [],
                              info_parentPath = [''Title''], info_depth = 0\<rparr>) 0
              \<lparr>allTextNodes = [], processedNodes = 0, chunksProcessed = 0,
               scan_events = [], scan_slices = []\<rparr> = Some s'
         \<and> length (scan_slices s') = 3
         \<and> chunksProcessed s' = 3
         \<and> processedNodes s' = 23
         \<and> concat (scan_slices s')
             = replicate 23 \<lparr>info_node = SceneNode ''1:1'' ''Title'' ''TEXT'' (Some True) ''Hello'' [],
                              info_parentPath = [''Title''], info_depth = 0\<rparr>)"
proof -
  let ?nodes = "replicate 23 \<lparr>info_node = SceneNode ''1:1'' ''Title'' ''TEXT'' (Some True) ''Hello'' [],
                              info_parentPath = [''Title''], info_depth = 0\<rparr>"
  let ?s0 = "\<lparr>allTextNodes = [], processedNodes = 0, chunksProcessed = 0,
               scan_events = [], scan_slices = []\<rparr>"
  note t = batch_commands_partition_items [where items = "[1, 2, 3, 4, 5, 6, 7, 8, 9, 10, 11 :: nat]"
      and chunkSize = 10 and cmdId = "''cmd_1''" and chunkCount = 3 and nodes = ?nodes
      and evs = "[]"]
  have pos: "(0::nat) < 10" by simp
  have c23: "nat (Math_ceil (of_nat (length ?nodes) / of_nat 10)) = 3"
    using ceiling_unique [of 3 "(23::rat) / 10"] by (simp add: Math_ceil_def)
  have c11: "nat (Math_ceil (of_nat (length [1, 2, 3, 4, 5, 6, 7, 8, 9, 10, 11 :: nat])
               / of_nat CHUNK_SIZE)) = 3"
    using ceiling_unique [of 3 "(11::rat) / 5"] by (simp add: Math_ceil_def CHUNK_SIZE_def)
  have split: "split_chunks [1, 2, 3, 4, 5, 6, 7, 8, 9, 10, 11 :: nat] 0 []
       = [[1, 2, 3, 4, 5], [6, 7, 8, 9, 10], [11]]"
    by (simp add: split_chunks.simps slice_def CHUNK_SIZE_def)
  from t [THEN conjunct2, THEN conjunct2, THEN conjunct2, THEN mp, OF pos]
  obtain s' where s': "scan_loop ''cmd_1'' 10 3 ?nodes 0 ?s0 = Some s'"
      "length (scan_slices s') = nat (Math_ceil (of_nat (length ?nodes) / of_nat 10))"
      "chunksProcessed s' = length (scan_slices s')"
      "processedNodes s' = length ?nodes"
      "concat (scan_slices s') = ?nodes"
    by (elim exE conjE) (rule that, assumption+)
  from s'(2,3,4) c23 have "length (scan_slices s') = 3" "chunksProcessed s' = 3"
      "processedNodes s' = 23"
    by simp_all
  with s'(1,5) have "\<exists>s'. scan_loop ''cmd_1'' 10 3 ?nodes 0 ?s0 = Some s'
         \<and> length (scan_slices s') = 3 \<and> chunksProcessed s' = 3 \<and> processedNodes s' = 23
         \<and> concat (scan_slices s') = ?nodes"
    by (intro exI [of _ s'] conjI)
  with pos split c11 show ?thesis by (intro conjI)
qed

lemma deleteMultipleNodes_valid:
  assumes "ids \<noteq> []"
  shows "\<exists>b. deleteMultipleNodes h cmdId d (Some ids)
      = (events b @ [sendProgressUpdate cmdId ''delete_multiple_nodes'' Completed 100 (length ids)
                       (successCount b + failureCount b) (Some (None, None))],
         Inr \<lparr>ds_success = (successCount b > 0), nodesDeleted = successCount b,
              nodesFailed = failureCount b, totalNodes = length ids, ds_results = results b,
              ds_completedInChunks = length (split_chunks ids 0 []), ds_commandId = cmdId\<rparr>,
         doc b)
    \<and> b = process_chunks cmdId ''delete_multiple_nodes'' del_success (deleteChunk h) (length ids)
            (split_chunks ids 0 []) 0
            \<lparr>doc = d, results = [], successCount = 0, failureCount = 0,
             events = [sendProgressUpdate cmdId ''delete_multiple_nodes'' Started 0 (length ids) 0
                         (Some (None, None)),
                       sendProgressUpdate cmdId ''delete_multiple_nodes'' InProgress 5 (length ids) 0
                         (Some (None, None))]\<rparr>"
  using assms by (simp add: deleteMultipleNodes_def Let_def)

lemma setMultipleTextContents_valid:
  assumes "nodeId \<noteq> []"
  shows "\<exists>b. setMultipleTextContents h cmdId d (Some nodeId) (Some items)
      = (events b @ [sendProgressUpdate cmdId ''set_multiple_text_contents'' Completed 100
                       (length items) (successCount b + failureCount b) (Some (None, None))],
         Inr \<lparr>rs_success = (successCount b > 0), rs_nodeId = nodeId,
              replacementsApplied = successCount b, replacementsFailed = failureCount b,
              totalReplacements = length items, rs_results = results b,
              rs_completedInChunks = length (split_chunks items 0 []), rs_commandId = cmdId\<rparr>,
         doc b)
    \<and> b = process_chunks cmdId ''set_multiple_text_contents'' rep_success (replaceChunk h)
            (length items) (split_chunks items 0 []) 0
            \<lparr>doc = d, results = [], successCount = 0, failureCount = 0,
             events = [sendProgressUpdate cmdId ''set_multiple_text_contents'' Started 0
                         (length items) 0 (Some (None, None)),
                       sendProgressUpdate cmdId ''set_multiple_text_contents'' InProgress 5
                         (length items) 0 (Some (None, None))]\<rparr>"
  using assms by (simp add: setMultipleTextContents_def Let_def)

lemma deleteMultipleNodes_summary:
  assumes "ids \<noteq> []"
  shows "\<exists>evs s d'. deleteMultipleNodes h cmdId d (Some ids) = (evs, Inr s, d')
     \<and> status (last evs) = Completed \<and> progress (last evs) = 100
     \<and> totalItems (last evs) = length ids
     \<and> processedItems (last evs) = nodesDeleted s + nodesFailed s
     \<and> nodesDeleted s + nodesFailed s = length ids
     \<and> totalNodes s = length ids
     \<and> length (ds_results s) = length ids
     \<and> map del_nodeId (ds_results s) = ids
     \<and> nodesDeleted s = length (filter del_success (ds_results s))
     \<and> nodesFailed s = length (filter (\<lambda>r. \<not> del_success r) (ds_results s))
     \<and> ds_success s = (0 < nodesDeleted s)
     \<and> (\<forall>r \<in> set (ds_results s). del_success r \<longleftrightarrow> del_error r = None)
     \<and> progress_contract evs"
proof -
  from deleteMultipleNodes_valid [OF assms, of h cmdId d] obtain b where
    run: "deleteMultipleNodes h cmdId d (Some ids)
      = (events b @ [sendProgressUpdate cmdId ''delete_multiple_nodes'' Completed 100 (length ids)
                       (successCount b + failureCount b) (Some (None, None))],
         Inr \<lparr>ds_success = (successCount b > 0), nodesDeleted = successCount b,
              nodesFailed = failureCount b, totalNodes = length ids, ds_results = results b,
              ds_completedInChunks = length (split_chunks ids 0 []), ds_commandId = cmdId\<rparr>,
         doc b)"
    and b: "b = process_chunks cmdId ''delete_multiple_nodes'' del_success (deleteChunk h) (length ids)
            (split_chunks ids 0 []) 0
            \<lparr>doc = d, results = [], successCount = 0, failureCount = 0,
             events = [sendProgressUpdate cmdId ''delete_multiple_nodes'' Started 0 (length ids) 0
                         (Some (None, None)),
                       sendProgressUpdate cmdId ''delete_multiple_nodes'' InProgress 5 (length ids) 0
                         (Some (None, None))]\<rparr>"
    by blast
  note counts = batch_counts [of del_nodeId "deleteChunk h" "\<lambda>nodeId. nodeId", OF deleteChunk_keys b]
  have keys: "map del_nodeId (results b) = ids"
    unfolding b
    using batch_results [of del_nodeId "deleteChunk h" "\<lambda>nodeId. nodeId", OF deleteChunk_keys]
    by simp
  have errs: "\<forall>r \<in> set (results b). del_success r \<longleftrightarrow> del_error r = None"
    unfolding b
    by (rule process_chunks_all [of "deleteChunk h" "\<lambda>r. del_success r \<longleftrightarrow> del_error r = None",
          OF deleteChunk_errors]) simp
  have contract: "progress_contract
      (events b @ [sendProgressUpdate cmdId ''delete_multiple_nodes'' Completed 100 (length ids)
                       (successCount b + failureCount b) (Some (None, None))])"
    unfolding b by (rule batch_events_contract) (simp_all add: last_event_fields)
  show ?thesis
    unfolding run
    using counts keys errs contract by (simp add: last_event_fields)
qed

lemma setMultipleTextContents_summary:
  assumes "nodeId \<noteq> []"
  shows "\<exists>evs s d'. setMultipleTextContents h cmdId d (Some nodeId) (Some items) = (evs, Inr s, d')
     \<and> status (last evs) = Completed \<and> progress (last evs) = 100
     \<and> totalItems (last evs) = length items
     \<and> processedItems (last evs) = replacementsApplied s + replacementsFailed s
     \<and> replacementsApplied s + replacementsFailed s = length items
     \<and> totalReplacements s = length items
     \<and> length (rs_results s) = length items
     \<and> map rep_nodeId (rs_results s) = map replacement_key items
     \<and> replacementsApplied s = length (filter rep_success (rs_results s))
     \<and> replacementsFailed s = length (filter (\<lambda>r. \<not> rep_success r) (rs_results s))
     \<and> rs_success s = (0 < replacementsApplied s)
     \<and> (\<forall>r \<in> set (rs_results s). rep_success r \<longleftrightarrow> rep_error r = None)
     \<and> progress_contract evs"
proof -
  from setMultipleTextContents_valid [OF assms, of h cmdId d items] obtain b where
    run: "setMultipleTextContents h cmdId d (Some nodeId) (Some items)
      = (events b @ [sendProgressUpdate cmdId ''set_multiple_text_contents'' Completed 100
                       (length items) (successCount b + failureCount b) (Some (None, None))],
         Inr \<lparr>rs_success = (successCount b > 0), rs_nodeId = nodeId,
              replacementsApplied = successCount b, replacementsFailed = failureCount b,
              totalReplacements = length items, rs_results = results b,
              rs_completedInChunks = length (split_chunks items 0 []), rs_commandId = cmdId\<rparr>,
         doc b)"
    and b: "b = process_chunks cmdId ''set_multiple_text_contents'' rep_success (replaceChunk h)
            (length items) (split_chunks items 0 []) 0
            \<lparr>doc = d, results = [], successCount = 0, failureCount = 0,
             events = [sendProgressUpdate cmdId ''set_multiple_text_contents'' Started 0
                         (length items) 0 (Some (None, None)),
                       sendProgressUpdate cmdId ''set_multiple_text_contents'' InProgress 5
                         (length items) 0 (Some (None, None))]\<rparr>"
    by blast
  note counts = batch_counts [of rep_nodeId "replaceChunk h" replacement_key, OF replaceChunk_keys b]
  have keys: "map rep_nodeId (results b) = map replacement_key items"
    unfolding b
    using batch_results [of rep_nodeId "replaceChunk h" replacement_key, OF replaceChunk_keys]
    by simp
  have errs: "\<forall>r \<in> set (results b). rep_success r \<longleftrightarrow> rep_error r = None"
    unfolding b
    by (rule process_chunks_all [of "replaceChunk h" "\<lambda>r. rep_success r \<longleftrightarrow> rep_error r = None",
          OF replaceChunk_errors]) simp
  have contract: "progress_contract
      (events b @ [sendProgressUpdate cmdId ''set_multiple_text_contents'' Completed 100
                       (length items) (successCount b + failureCount b) (Some (None, None))])"
    unfolding b by (rule batch_events_contract) (simp_all add: last_event_fields)
  show ?thesis
    unfolding run
    using counts keys errs contract by (simp add: last_event_fields)
qed


text \<open>
  Claim C2.  A batch command that completes (its parameters pass the validation at its head)
  ends with a \<^verbatim>\<open>completed\<close> event whose \<^verbatim>\<open>totalItems\<close> is the number \<open>N\<close> of input items
  and whose \<^verbatim>\<open>processedItems\<close> is \<open>successCount + failureCount\<close>; this sum is \<open>N\<close>, and
  the results are \<open>N\<close>, each counted once as a success or as a failure.
\<close>

theorem completed_batch_accounts_for_every_item:
  "(ids \<noteq> [] \<longrightarrow>
      (\<exists>evs s d'. deleteMultipleNodes h cmdId d (Some ids) = (evs, Inr s, d')
         \<and> status (last evs) = Completed
         \<and> totalItems (last evs) = length ids
         \<and> processedItems (last evs) = nodesDeleted s + nodesFailed s
         \<and> nodesDeleted s + nodesFailed s = length ids
         \<and> length (ds_results s) = length ids
         \<and> nodesDeleted s = length (filter del_success (ds_results s))
         \<and> nodesFailed s = length (filter (\<lambda>r. \<not> del_success r) (ds_results s))))
   \<and> (nodeId \<noteq> [] \<longrightarrow>
      (\<exists>evs s d'. setMultipleTextContents h2 cmdId2 d2 (Some nodeId) (Some items) = (evs, Inr s, d')
         \<and> status (last evs) = Completed
         \<and> totalItems (last evs) = length items
         \<and> processedItems (last evs) = replacementsApplied s + replacementsFailed s
         \<and> replacementsApplied s + replacementsFailed s = length items
         \<and> length (rs_results s) = length items
         \<and> replacementsApplied s = length (filter rep_success (rs_results s))
         \<and> replacementsFailed s = length (filter (\<lambda>r. \<not> rep_success r) (rs_results s))))"
proof (intro conjI impI)
  assume "ids \<noteq> []"
  from deleteMultipleNodes_summary [OF this, of h cmdId d]
  show "\<exists>evs s d'. deleteMultipleNodes h cmdId d (Some ids) = (evs, Inr s, d')
         \<and> status (last evs) = Completed
         \<and> totalItems (last evs) = length ids
         \<and> processedItems (last evs) = nodesDeleted s + nodesFailed s
         \<and> nodesDeleted s + nodesFailed s = length ids
         \<and> length (ds_results s) = length ids
         \<and> nodesDeleted s = length (filter del_success (ds_results s))
         \<and> nodesFailed s = length (filter (\<lambda>r. \<not> del_success r) (ds_results s))"
    by (elim exE conjE) (intro exI conjI, assumption+)
next
  assume "nodeId \<noteq> []"
  from setMultipleTextContents_summary [OF this, of h2 cmdId2 d2 items]
  show "\<exists>evs s d'. setMultipleTextContents h2 cmdId2 d2 (Some nodeId) (Some items) = (evs, Inr s, d')
         \<and> status (last evs) = Completed
         \<and> totalItems (last evs) = length items
         \<and> processedItems (last evs) = replacementsApplied s + replacementsFailed s
         \<and> replacementsApplied s + replacementsFailed s = length items
         \<and> length (rs_results s) = length items
         \<and> replacementsApplied s = length (filter rep_success (rs_results s))
         \<and> replacementsFailed s = length (filter (\<lambda>r. \<not> rep_success r) (rs_results s))"
    by (elim exE conjE) (intro exI conjI, assumption+)
qed

theorem completed_batch_accounts_for_every_item_witness:
  "[''1:1'', ''1:2'', ''1:3'', ''1:4'', ''1:5'', ''1:6'', ''1:7''] \<noteq> [] \<and> ''0:1'' \<noteq> []
   \<and> (\<exists>evs s d'. deleteMultipleNodes list_host ''cmd_1''
       (map (\<lambda>i. SceneNode i ''Layer'' ''RECTANGLE'' (Some True) '''' [])
          [''1:1'', ''1:2'', ''1:3'', ''1:5'', ''1:6'', ''1:7''])
       (Some [''1:1'', ''1:2'', ''1:3'', ''1:4'', ''1:5'', ''1:6'', ''1:7'']) = (evs, Inr s, d')
         \<and> status (last evs) = Completed \<and> totalItems (last evs) = 7
         \<and> processedItems (last evs) = 7
         \<and> nodesDeleted s = 6 \<and> nodesFailed s = 1 \<and> length (ds_results s) = 7)
   \<and> (\<exists>evs s d'. setMultipleTextContents list_host ''cmd_2''
       [SceneNode ''2:1'' ''Title'' ''TEXT'' (Some True) ''Hello'' [],
           SceneNode ''2:2'' ''Card'' ''FRAME'' (Some True) '''' []]
       (Some ''0:1'') (Some [\<lparr>replacement_nodeId = Some ''2:1'', replacement_text = Some ''Bonjour''\<rparr>,
           \<lparr>replacement_nodeId = Some ''2:2'', replacement_text = Some ''Carte''\<rparr>,
           \<lparr>replacement_nodeId = None, replacement_text = Some ''Rien''\<rparr>]) = (evs, Inr s, d')
         \<and> status (last evs) = Completed \<and> totalItems (last evs) = 3
         \<and> processedItems (last evs) = 3
         \<and> replacementsApplied s = 1 \<and> replacementsFailed s = 2 \<and> length (rs_results s) = 3)"
proof -
  let ?ids = "[''1:1'', ''1:2'', ''1:3'', ''1:4'', ''1:5'', ''1:6'', ''1:7'']"
  let ?D = "deleteMultipleNodes list_host ''cmd_1''
       (map (\<lambda>i. SceneNode i ''Layer'' ''RECTANGLE'' (Some True) '''' [])
          [''1:1'', ''1:2'', ''1:3'', ''1:5'', ''1:6'', ''1:7''])
       (Some [''1:1'', ''1:2'', ''1:3'', ''1:4'', ''1:5'', ''1:6'', ''1:7''])"
  let ?S = "setMultipleTextContents list_host ''cmd_2''
       [SceneNode ''2:1'' ''Title'' ''TEXT'' (Some True) ''Hello'' [],
           SceneNode ''2:2'' ''Card'' ''FRAME'' (Some True) '''' []]
       (Some ''0:1'') (Some [\<lparr>replacement_nodeId = Some ''2:1'', replacement_text = Some ''Bonjour''\<rparr>,
           \<lparr>replacement_nodeId = Some ''2:2'', replacement_text = Some ''Carte''\<rparr>,
           \<lparr>replacement_nodeId = None, replacement_text = Some ''Rien''\<rparr>])"
  note t = completed_batch_accounts_for_every_item [of ?ids list_host "''cmd_1''"
      "(map (\<lambda>i. SceneNode i ''Layer'' ''RECTANGLE'' (Some True) '''' [])
          [''1:1'', ''1:2'', ''1:3'', ''1:5'', ''1:6'', ''1:7''])" "''0:1''" list_host "''cmd_2''"
      "[SceneNode ''2:1'' ''Title'' ''TEXT'' (Some True) ''Hello'' [],
           SceneNode ''2:2'' ''Card'' ''FRAME'' (Some True) '''' []]"
      "[\<lparr>replacement_nodeId = Some ''2:1'', replacement_text = Some ''Bonjour''\<rparr>,
           \<lparr>replacement_nodeId = Some ''2:2'', replacement_text = Some ''Carte''\<rparr>,
           \<lparr>replacement_nodeId = None, replacement_text = Some ''Rien''\<rparr>]"]
  have ids: "?ids \<noteq> []" and nid: "''0:1'' \<noteq> []" by simp_all
  have del: "(case fst (snd ?D) of Inr s \<Rightarrow> nodesDeleted s | Inl m \<Rightarrow> 0) = 6"
    by code_simp
  have rep: "(case fst (snd ?S) of Inr s \<Rightarrow> replacementsApplied s | Inl m \<Rightarrow> 0) = 1"
    by code_simp
  from t [THEN conjunct1, THEN mp, OF ids]
  obtain evs s d' where d: "?D = (evs, Inr s, d')" "status (last evs) = Completed"
      "totalItems (last evs) = length ?ids"
      "processedItems (last evs) = nodesDeleted s + nodesFailed s"
      "nodesDeleted s + nodesFailed s = length ?ids" "length (ds_results s) = length ?ids"
    by (elim exE conjE) (rule that, assumption+)
  from del d(1) have d6: "nodesDeleted s = 6" by simp
  with d(3-6) have "totalItems (last evs) = 7" "processedItems (last evs) = 7"
      "nodesFailed s = 1" "length (ds_results s) = 7"
    by simp_all
  with d(1,2) d6 have D: "\<exists>evs s d'. ?D = (evs, Inr s, d')
         \<and> status (last evs) = Completed \<and> totalItems (last evs) = 7
         \<and> processedItems (last evs) = 7
         \<and> nodesDeleted s = 6 \<and> nodesFailed s = 1 \<and> length (ds_results s) = 7"
    by (intro exI [of _ evs] exI [of _ s] exI [of _ d'] conjI)
  from t [THEN conjunct2, THEN mp, OF nid]
  obtain evs2 s2 d2 where r: "?S = (evs2, Inr s2, d2)" "status (last evs2) = Completed"
      "totalItems (last evs2) = length [\<lparr>replacement_nodeId = Some ''2:1'', replacement_text = Some ''Bonjour''\<rparr>,
           \<lparr>replacement_nodeId = Some ''2:2'', replacement_text = Some ''Carte''\<rparr>,
           \<lparr>replacement_nodeId = None, replacement_text = Some ''Rien''\<rparr>]"
      "processedItems (last evs2) = replacementsApplied s2 + replacementsFailed s2"
      "replacementsApplied s2 + replacementsFailed s2 = length [\<lparr>replacement_nodeId = Some ''2:1'', replacement_text = Some ''Bonjour''\<rparr>,
           \<lparr>replacement_nodeId = Some ''2:2'', replacement_text = Some ''Carte''\<rparr>,
           \<lparr>replacement_nodeId = None, replacement_text = Some ''Rien''\<rparr>]"
      "length (rs_results s2) = length [\<lparr>replacement_nodeId = Some ''2:1'', replacement_text = Some ''Bonjour''\<rparr>,
           \<lparr>replacement_nodeId = Some ''2:2'', replacement_text = Some ''Carte''\<rparr>,
           \<lparr>replacement_nodeId = None, replacement_text = Some ''Rien''\<rparr>]"
    by (elim exE conjE) (rule that, assumption+)
  from rep r(1) have r1: "replacementsApplied s2 = 1" by simp
  with r(3-6) have "totalItems (last evs2) = 3" "processedItems (last evs2) = 3"
      "replacementsFailed s2 = 2" "length (rs_results s2) = 3"
    by simp_all
  with r(1,2) r1 have S: "\<exists>evs s d'. ?S = (evs, Inr s, d')
         \<and> status (last evs) = Completed \<and> totalItems (last evs) = 3
         \<and> processedItems (last evs) = 3
         \<and> replacementsApplied s = 1 \<and> replacementsFailed s = 2 \<and> length (rs_results s) = 3"
    by (intro exI [of _ evs2] exI [of _ s2] exI [of _ d2] conjI)
  from ids nid D S show ?thesis by (intro conjI)
qed






section \<open>The command dispatcher: results\<close>



end
